theory Spec2Isabelle
  imports Main
begin

section \<open>A pooling allocator and an owning container (src/main.cpp)\<close>

text \<open>
  The development embeds \<^verbatim>\<open>MyAllocator<T, BlockSize>\<close>, \<^verbatim>\<open>MyContainer<T, Allocator>\<close>,
  \<^verbatim>\<open>factorial\<close> and the two pool-backed parts of \<^verbatim>\<open>main\<close> as functions on explicit
  state.  Every member function takes the object it is called on and the system heap and
  returns its result together with the updated object and heap.  A result is
  \<open>Inr\<close> of the returned value or \<open>Inl\<close> of an error; the state is returned in both
  cases, because a C++ exception leaves the objects as they were when it was thrown.

  Conventions.
  \<^item> \<^verbatim>\<open>size_t\<close> values (\<^verbatim>\<open>n\<close>, \<^verbatim>\<open>BlockSize\<close>, \<^verbatim>\<open>size_\<close>, the loop index of
    \<^verbatim>\<open>expand\<close>) are natural numbers.  The one product that can leave 64 bits,
    \<^verbatim>\<open>n * sizeof(T)\<close>, is reduced modulo \<open>2 ^ 64\<close>.  The increments \<^verbatim>\<open>++i\<close> (bounded by
    \<^verbatim>\<open>BlockSize\<close>) and \<^verbatim>\<open>++size_\<close> (the number of entries of a \<^verbatim>\<open>std::vector\<close> of
    pointers, below its \<^verbatim>\<open>max_size()\<close>) stay in range.
  \<^item> A \<^verbatim>\<open>std::vector<pointer>\<close> is a list; \<^verbatim>\<open>push_back\<close> appends, \<^verbatim>\<open>back\<close> is
    \<open>last\<close>, \<^verbatim>\<open>pop_back\<close> is \<open>butlast\<close>.  \<^verbatim>\<open>back()\<close> on an empty vector is undefined
    behaviour and is a separate branch.  The storage a vector obtains for its own
    buffer is not part of the model.
  \<^item> The template arguments \<^verbatim>\<open>BlockSize\<close> and \<^verbatim>\<open>sizeof(T)\<close> are two constant fields
    of the allocator record.
\<close>

subsection \<open>The system allocator\<close>

text \<open>
  Modelled from the spec: \<^verbatim>\<open>::operator new\<close> and \<^verbatim>\<open>::operator delete\<close> are library code
  outside src/.  The spec has a system allocator that returns freshly allocated memory
  of the requested size or fails with OutOfMemory, and that takes memory back; releasing
  a pointer it did not hand out, or releasing twice, is undefined behaviour.
  The heap records the byte size of every block ever handed out, in order, and an
  address names a block: the block handed out by the \<open>i\<close>-th successful call is \<open>i\<close>, and
  \<open>0\<close> is the null pointer.  So \<open>length (sizes h)\<close> is the number of system allocations
  so far, \<open>released h\<close> lists the blocks given back, and \<open>room h\<close> is the number of
  bytes the system can still supply.  A request that does not fit throws
  \<^verbatim>\<open>std::bad_alloc\<close>; deleting the null pointer does nothing.  A real allocator may
  place a new block where a released one was; the model does not say where a block
  lies, and no statement below compares a new block with a released one.
\<close>

type_synonym addr = nat

datatype error = bad_alloc | undefined_behaviour

record heap =
  sizes :: "nat list"
  released :: "addr list"
  room :: nat

definition live :: "heap \<Rightarrow> addr \<Rightarrow> bool" where
  "live h p = (0 < p \<and> p \<le> length (sizes h) \<and> p \<notin> set (released h))"

definition operator_new :: "nat \<Rightarrow> heap \<Rightarrow> (error + addr) \<times> heap" where
  "operator_new sz h =
     (if sz \<le> room h
      then (Inr (Suc (length (sizes h))),
            h\<lparr>sizes := sizes h @ [sz], room := room h - sz\<rparr>)
      else (Inl bad_alloc, h))"

definition operator_delete :: "addr \<Rightarrow> heap \<Rightarrow> (error + unit) \<times> heap" where
  "operator_delete p h =
     (if p = 0 then (Inr (), h)
      else if live h p
      then (Inr (), h\<lparr>released := p # released h, room := room h + sizes h ! (p - 1)\<rparr>)
      else (Inl undefined_behaviour, h))"

subsection \<open>MyAllocator\<close>

record MyAllocator =
  BlockSize :: nat
  sizeof_T :: nat
  free_blocks :: "addr list"

text \<open>
  \<^verbatim>\<open>MyAllocator() noexcept = default\<close>: an empty free list.  The converting constructor
  \<^verbatim>\<open>MyAllocator(const MyAllocator<U, BlockSize>&) noexcept {}\<close> ignores its argument's free
  list as well; it keeps \<^verbatim>\<open>BlockSize\<close> and takes the element size of the new type.
\<close>

definition MyAllocator_default :: "nat \<Rightarrow> nat \<Rightarrow> MyAllocator" where
  "MyAllocator_default bs sz = \<lparr>BlockSize = bs, sizeof_T = sz, free_blocks = []\<rparr>"

definition MyAllocator_rebind :: "nat \<Rightarrow> MyAllocator \<Rightarrow> MyAllocator" where
  "MyAllocator_rebind sz other = \<lparr>BlockSize = BlockSize other, sizeof_T = sz, free_blocks = []\<rparr>"

text \<open>
  \<^verbatim>\<open>expand\<close>: \<^verbatim>\<open>for (size_t i = 0; i < BlockSize; ++i) free_blocks.push_back(::operator new(sizeof(T)))\<close>.
  A \<^verbatim>\<open>bad_alloc\<close> leaves the loop with the blocks pushed so far still in the list.
\<close>

function expand_loop :: "nat \<Rightarrow> MyAllocator \<Rightarrow> heap \<Rightarrow> (error + unit) \<times> MyAllocator \<times> heap" where
  "expand_loop i a h =
     (if i < BlockSize a
      then (case operator_new (sizeof_T a) h of
              (Inl e, h') \<Rightarrow> (Inl e, a, h')
            | (Inr p, h') \<Rightarrow> expand_loop (Suc i) (a\<lparr>free_blocks := free_blocks a @ [p]\<rparr>) h')
      else (Inr (), a, h))"
  by pat_completeness auto
termination
  by (relation "measure (\<lambda>(i, a, h). BlockSize a - i)") auto

definition expand :: "MyAllocator \<Rightarrow> heap \<Rightarrow> (error + unit) \<times> MyAllocator \<times> heap" where
  "expand a h = expand_loop 0 a h"

text \<open>
  \<^verbatim>\<open>allocate(n)\<close>: the bypass for \<^verbatim>\<open>n > BlockSize\<close>; otherwise \<^verbatim>\<open>expand\<close> when the free
  list is empty, then \<^verbatim>\<open>back()\<close> and \<^verbatim>\<open>pop_back()\<close>.  With \<^verbatim>\<open>BlockSize = 0\<close> the list is
  still empty after \<^verbatim>\<open>expand\<close> and \<^verbatim>\<open>back()\<close> is undefined.
\<close>

definition allocate :: "MyAllocator \<Rightarrow> heap \<Rightarrow> nat \<Rightarrow> (error + addr) \<times> MyAllocator \<times> heap" where
  "allocate a h n =
     (if n > BlockSize a
      then (case operator_new ((n * sizeof_T a) mod 2 ^ 64) h of (r, h') \<Rightarrow> (r, a, h'))
      else (case (if free_blocks a = [] then expand a h else (Inr (), a, h)) of
              (Inl e, a', h') \<Rightarrow> (Inl e, a', h')
            | (Inr u, a', h') \<Rightarrow>
                (if free_blocks a' = [] then (Inl undefined_behaviour, a', h')
                 else (Inr (last (free_blocks a')),
                       a'\<lparr>free_blocks := butlast (free_blocks a')\<rparr>, h'))))"

definition deallocate :: "MyAllocator \<Rightarrow> heap \<Rightarrow> addr \<Rightarrow> nat \<Rightarrow> (error + unit) \<times> MyAllocator \<times> heap" where
  "deallocate a h p n =
     (if n > BlockSize a
      then (case operator_delete p h of (r, h') \<Rightarrow> (r, a, h'))
      else (Inr (), a\<lparr>free_blocks := free_blocks a @ [p]\<rparr>, h))"

text \<open>
  \<^verbatim>\<open>operator==\<close> and \<^verbatim>\<open>operator!=\<close> are declared for two allocators with the same
  \<^verbatim>\<open>BlockSize\<close> and any two element types; their bodies are \<^verbatim>\<open>return true\<close> and
  \<^verbatim>\<open>return false\<close>.
\<close>

definition operator_eq :: "MyAllocator \<Rightarrow> MyAllocator \<Rightarrow> bool" where
  "operator_eq a b = True"

definition operator_ne :: "MyAllocator \<Rightarrow> MyAllocator \<Rightarrow> bool" where
  "operator_ne a b = False"

text \<open>
  Callers used to state the properties of the pool: a run of \<^verbatim>\<open>allocate\<close> calls with
  given counts, and \<open>k\<close> rounds of \<^verbatim>\<open>p = allocate(1); deallocate(p, 1)\<close>, which stop at the
  first exception.
\<close>

fun allocate_each :: "MyAllocator \<Rightarrow> heap \<Rightarrow> nat list \<Rightarrow> (error + addr) list \<times> MyAllocator \<times> heap" where
  "allocate_each a h [] = ([], a, h)"
| "allocate_each a h (n # ns) =
     (case allocate a h n of
        (r, a', h') \<Rightarrow>
          (case allocate_each a' h' ns of (rs, a'', h'') \<Rightarrow> (r # rs, a'', h'')))"

definition cycle :: "MyAllocator \<Rightarrow> heap \<Rightarrow> (error + unit) \<times> MyAllocator \<times> heap" where
  "cycle a h =
     (case allocate a h 1 of
        (Inl e, a', h') \<Rightarrow> (Inl e, a', h')
      | (Inr p, a', h') \<Rightarrow> deallocate a' h' p 1)"

fun cycles :: "nat \<Rightarrow> MyAllocator \<Rightarrow> heap \<Rightarrow> (error + unit) \<times> MyAllocator \<times> heap" where
  "cycles 0 a h = (Inr (), a, h)"
| "cycles (Suc k) a h =
     (case cycle a h of
        (Inl e, a', h') \<Rightarrow> (Inl e, a', h')
      | (Inr u, a', h') \<Rightarrow> cycles k a' h')"

text \<open>
  The invariant of the data model: every entry of the free list is a block obtained from
  the system with the size of one element.
\<close>

definition single_element_blocks :: "MyAllocator \<Rightarrow> heap \<Rightarrow> bool" where
  "single_element_blocks a h =
     (\<forall>p\<in>set (free_blocks a). 0 < p \<and> p \<le> length (sizes h) \<and> sizes h ! (p - 1) = sizeof_T a)"

subsection \<open>Text output\<close>

text \<open>
  Modelled from the spec: \<^verbatim>\<open>std::cout << value\<close> for an \<^verbatim>\<open>int\<close> is library code outside
  src/.  The spec prints integers in decimal (\<^verbatim>\<open>Key: 9, Value: 362880\<close>): a minus sign
  for a negative number, then the digits without leading zeros.  \<^verbatim>\<open>std::endl\<close> is the
  newline character.
\<close>

function show_nat :: "nat \<Rightarrow> string" where
  "show_nat n =
     (if n < 10 then [''0123456789'' ! n]
      else show_nat (n div 10) @ [''0123456789'' ! (n mod 10)])"
  by pat_completeness auto
termination
  by (relation "measure id") auto

text \<open>Modelled from the spec: the decimal text of an \<^verbatim>\<open>int\<close>, as \<^verbatim>\<open>operator<<\<close> writes it.\<close>

definition show_int :: "int \<Rightarrow> string" where
  "show_int i = (if i < 0 then CHR ''-'' # show_nat (nat (- i)) else show_nat (nat i))"

text \<open>Modelled from the spec: what \<^verbatim>\<open>std::endl\<close> writes, one newline character.\<close>

definition endl :: string where
  "endl = [CHR 0x0A]"

subsection \<open>Objects\<close>

text \<open>
  \<^verbatim>\<open>construct(p, args...)\<close> is a placement \<^verbatim>\<open>new\<close> and \<^verbatim>\<open>destroy(p)\<close> a destructor call,
  both members of the allocator.  The objects alive in allocated storage are a partial
  map from addresses to values.  Constructing stores the copy.  Destroying needs an
  object in storage the caller still holds: where no object lives, in a block that was
  given back to the system, or in a block that was given back to the allocator and
  lies in its free list (which holds unconstructed blocks only), the destructor call is
  undefined behaviour.  Reading through a pointer where no object lives is undefined
  behaviour as well.
\<close>

type_synonym 'v store = "addr \<Rightarrow> 'v option"

definition construct :: "'v store \<Rightarrow> addr \<Rightarrow> 'v \<Rightarrow> 'v store" where
  "construct s p v = s(p \<mapsto> v)"


subsection \<open>MyContainer\<close>

text \<open>
  The container is modelled with \<^verbatim>\<open>Allocator = MyAllocator<T, BlockSize>\<close>.  Its
  constructor copies the allocator it is given, free list included (the implicit copy
  constructor), and starts with no elements.  The calls through
  \<^verbatim>\<open>std::allocator_traits<Allocator>\<close> forward to the members \<^verbatim>\<open>allocate\<close>,
  \<^verbatim>\<open>deallocate\<close>, \<^verbatim>\<open>construct\<close> and \<^verbatim>\<open>destroy\<close> of the allocator.
\<close>

text \<open>
  The members \<^verbatim>\<open>alloc_\<close>, \<^verbatim>\<open>elements_\<close> and \<^verbatim>\<open>size_\<close> are the fields \<open>alloc_m\<close>,
  \<open>elements_m\<close> and \<open>size_m\<close> (a name cannot end in an underscore here).
\<close>

record MyContainer =
  alloc_m :: MyAllocator
  elements_m :: "addr list"
  size_m :: nat

definition MyContainer_init :: "MyAllocator \<Rightarrow> MyContainer" where
  "MyContainer_init alloc = \<lparr>alloc_m = alloc, elements_m = [], size_m = 0\<rparr>"

definition push_back ::
    "MyContainer \<Rightarrow> heap \<Rightarrow> 'v store \<Rightarrow> 'v \<Rightarrow> (error + unit) \<times> MyContainer \<times> heap \<times> 'v store" where
  "push_back c h s v =
     (case allocate (alloc_m c) h 1 of
        (Inl e, a', h') \<Rightarrow> (Inl e, c\<lparr>alloc_m := a'\<rparr>, h', s)
      | (Inr ptr, a', h') \<Rightarrow>
          (Inr (),
           c\<lparr>alloc_m := a', elements_m := elements_m c @ [ptr], size_m := size_m c + 1\<rparr>,
           h', construct s ptr v))"

text \<open>
  \<^verbatim>\<open>print\<close> writes every element followed by a blank, then \<^verbatim>\<open>std::endl\<close>.  The text
  \<^verbatim>\<open>operator<<\<close> produces for an element is a parameter.
\<close>

fun print_loop :: "('v \<Rightarrow> string) \<Rightarrow> addr list \<Rightarrow> 'v store \<Rightarrow> error + string" where
  "print_loop sh [] s = Inr []"
| "print_loop sh (ptr # ptrs) s =
     (case s ptr of
        None \<Rightarrow> Inl undefined_behaviour
      | Some v \<Rightarrow>
          (case print_loop sh ptrs s of
             Inl e \<Rightarrow> Inl e
           | Inr out \<Rightarrow> Inr (sh v @ '' '' @ out)))"

definition print :: "('v \<Rightarrow> string) \<Rightarrow> MyContainer \<Rightarrow> 'v store \<Rightarrow> error + string" where
  "print sh c s =
     (case print_loop sh (elements_m c) s of
        Inl e \<Rightarrow> Inl e
      | Inr out \<Rightarrow> Inr (out @ endl))"

text \<open>
  \<^verbatim>\<open>size()\<close> and \<^verbatim>\<open>empty()\<close> are \<^verbatim>\<open>const\<close>: functions of the container that return no
  new state.
\<close>

definition size_MyContainer :: "MyContainer \<Rightarrow> nat" where
  "size_MyContainer c = size_m c"

definition empty_MyContainer :: "MyContainer \<Rightarrow> bool" where
  "empty_MyContainer c = (size_m c = 0)"



text \<open>
  The states a container can reach: any sequence of \<^verbatim>\<open>push_back\<close> calls, each of which
  returns or throws, the caller going on in both cases.
\<close>

fun push_backs ::
    "MyContainer \<Rightarrow> heap \<Rightarrow> 'v store \<Rightarrow> 'v list \<Rightarrow> (error + unit) list \<times> MyContainer \<times> heap \<times> 'v store" where
  "push_backs c h s [] = ([], c, h, s)"
| "push_backs c h s (v # vs) =
     (case push_back c h s v of
        (r, c', h', s') \<Rightarrow>
          (case push_backs c' h' s' vs of
             (rs, c'', h'', s'') \<Rightarrow> (r # rs, c'', h'', s'')))"

text \<open>
  What a container relies on: released blocks were handed out before, the pointers of
  the container and of its allocator's free list are distinct live blocks, and every
  element pointer refers to an object.
\<close>

definition heap_ok :: "heap \<Rightarrow> bool" where
  "heap_ok h = (\<forall>p\<in>set (released h). 0 < p \<and> p \<le> length (sizes h))"

definition owns :: "MyContainer \<Rightarrow> heap \<Rightarrow> 'v store \<Rightarrow> bool" where
  "owns c h s =
     (heap_ok h \<and>
      distinct (elements_m c @ free_blocks (alloc_m c)) \<and>
      (\<forall>p\<in>set (elements_m c @ free_blocks (alloc_m c)). live h p) \<and>
      (\<forall>p\<in>set (elements_m c). s p \<noteq> None))"

subsection \<open>factorial\<close>

text \<open>
  \<^verbatim>\<open>int factorial(int n)\<close>, with \<^verbatim>\<open>int\<close> a 32-bit signed integer.  The subtraction
  \<^verbatim>\<open>n - 1\<close> is only reached for \<^verbatim>\<open>n > 1\<close>; a product outside the range of \<^verbatim>\<open>int\<close> is
  signed overflow, which is undefined behaviour.
\<close>

function factorial :: "int \<Rightarrow> error + int" where
  "factorial n =
     (if n \<le> 1 then Inr 1
      else (case factorial (n - 1) of
              Inl e \<Rightarrow> Inl e
            | Inr f \<Rightarrow>
                (if - (2 ^ 31) \<le> n * f \<and> n * f \<le> 2 ^ 31 - 1 then Inr (n * f)
                 else Inl undefined_behaviour)))"
  by pat_completeness auto
termination
  by (relation "measure nat") auto

subsection \<open>The pool-backed container of main\<close>

text \<open>
  Steps 8 to 10 of \<^verbatim>\<open>main\<close>: \<^verbatim>\<open>MyContainer<int, MyAllocator<int, 10>> container2\<close>, the
  loop \<^verbatim>\<open>for (int i = 0; i < 10; ++i) container2.push_back(i)\<close>, and the output of
  \<^verbatim>\<open>"container2: "\<close> followed by \<^verbatim>\<open>container2.print()\<close>.  \<^verbatim>\<open>sizeof(int)\<close> is a
  parameter.  An exception leaves the loop.
\<close>

function container2_fill ::
    "int \<Rightarrow> MyContainer \<Rightarrow> heap \<Rightarrow> int store \<Rightarrow> (error + unit) \<times> MyContainer \<times> heap \<times> int store" where
  "container2_fill i c h s =
     (if i < 10
      then (case push_back c h s i of
              (Inl e, c', h', s') \<Rightarrow> (Inl e, c', h', s')
            | (Inr u, c', h', s') \<Rightarrow> container2_fill (i + 1) c' h' s')
      else (Inr (), c, h, s))"
  by pat_completeness auto
termination
  by (relation "measure (\<lambda>(i, c, h, s). nat (10 - i))") auto

definition main_container2 ::
    "nat \<Rightarrow> heap \<Rightarrow> int store \<Rightarrow> (error + string) \<times> MyContainer \<times> heap \<times> int store" where
  "main_container2 sizeof_int h s =
     (case container2_fill 0 (MyContainer_init (MyAllocator_default 10 sizeof_int)) h s of
        (Inl e, c, h', s') \<Rightarrow> (Inl e, c, h', s')
      | (Inr u, c, h', s') \<Rightarrow>
          (case print show_int c s' of
             Inl e \<Rightarrow> (Inl e, c, h', s')
           | Inr out \<Rightarrow> (Inr (''container2: '' @ out), c, h', s')))"

subsection \<open>The pool-backed map of main\<close>

text \<open>
  Modelled from the spec: \<^verbatim>\<open>std::map\<close> is library code outside src/.  The spec has a
  keyed structure that is populated through a pool-backed allocator and printed in
  ascending key order.  The model is the node-based container of the C++ standard
  library: the map holds the allocator rebound to its node type (built by the
  converting constructor of \<^verbatim>\<open>MyAllocator\<close>, so with the same \<^verbatim>\<open>BlockSize\<close> and an empty
  free list); \<^verbatim>\<open>operator[]\<close> returns the node of the key and, when the key is new, first
  obtains one node with \<^verbatim>\<open>allocate(1)\<close>, constructs the pair of the key and \<^verbatim>\<open>int()\<close> in
  it and links it in key order; the map itself makes no other allocation.  The sizes of
  the pair and of a node are parameters.
\<close>

record map_int_int =
  node_alloc :: MyAllocator
  nodes :: "(int \<times> addr) list"

text \<open>
  Modelled from the spec: the default constructor of the map; no node yet and none
  allocated.
\<close>

definition map_default :: "nat \<Rightarrow> nat \<Rightarrow> nat \<Rightarrow> map_int_int" where
  "map_default bs sizeof_pair sizeof_node =
     \<lparr>node_alloc = MyAllocator_rebind sizeof_node (MyAllocator_default bs sizeof_pair),
      nodes = []\<rparr>"

text \<open>Modelled from the spec: \<^verbatim>\<open>operator[]\<close> of the map, returning the address of the node.\<close>

definition map_subscript ::
    "map_int_int \<Rightarrow> heap \<Rightarrow> (int \<times> int) store \<Rightarrow> int \<Rightarrow>
     (error + addr) \<times> map_int_int \<times> heap \<times> (int \<times> int) store" where
  "map_subscript m h s k =
     (case map_of (nodes m) k of
        Some p \<Rightarrow> (Inr p, m, h, s)
      | None \<Rightarrow>
          (case allocate (node_alloc m) h 1 of
             (Inl e, a', h') \<Rightarrow> (Inl e, m\<lparr>node_alloc := a'\<rparr>, h', s)
           | (Inr p, a', h') \<Rightarrow>
               (Inr p, m\<lparr>node_alloc := a', nodes := insort_key fst (k, p) (nodes m)\<rparr>, h',
                construct s p (k, 0))))"

text \<open>
  Modelled from the spec: the assignment through the reference \<^verbatim>\<open>operator[]\<close> returns; it
  replaces the mapped value and keeps the key.
\<close>

definition assign_mapped :: "(int \<times> int) store \<Rightarrow> addr \<Rightarrow> int \<Rightarrow> (int \<times> int) store" where
  "assign_mapped s p v = (case s p of None \<Rightarrow> s | Some (k, old) \<Rightarrow> s(p \<mapsto> (k, v)))"

text \<open>
  Steps 3 to 5 of \<^verbatim>\<open>main\<close>: the map with \<^verbatim>\<open>MyAllocator<std::pair<const int, int>, 10>\<close>, the
  loop \<^verbatim>\<open>for (int i = 0; i < 10; ++i) map2[i] = factorial(i)\<close> (the right operand of an
  assignment is evaluated first), and the output of
  \<^verbatim>\<open>"map2:"\<close> and of one line \<^verbatim>\<open>"Key: " << key << ", Value: " << value\<close> per entry.
\<close>

function map2_fill ::
    "int \<Rightarrow> map_int_int \<Rightarrow> heap \<Rightarrow> (int \<times> int) store \<Rightarrow>
     (error + unit) \<times> map_int_int \<times> heap \<times> (int \<times> int) store" where
  "map2_fill i m h s =
     (if i < 10
      then (case factorial i of
              Inl e \<Rightarrow> (Inl e, m, h, s)
            | Inr f \<Rightarrow>
                (case map_subscript m h s i of
                   (Inl e, m', h', s') \<Rightarrow> (Inl e, m', h', s')
                 | (Inr p, m', h', s') \<Rightarrow> map2_fill (i + 1) m' h' (assign_mapped s' p f)))
      else (Inr (), m, h, s))"
  by pat_completeness auto
termination
  by (relation "measure (\<lambda>(i, m, h, s). nat (10 - i))") auto

text \<open>
  The range-based loop over the map, in key order, with the output line of \<^verbatim>\<open>main\<close> for
  each entry.
\<close>

fun map_print_loop :: "(int \<times> addr) list \<Rightarrow> (int \<times> int) store \<Rightarrow> error + string" where
  "map_print_loop [] s = Inr []"
| "map_print_loop ((k, p) # rest) s =
     (case s p of
        None \<Rightarrow> Inl undefined_behaviour
      | Some (key, val) \<Rightarrow>
          (case map_print_loop rest s of
             Inl e \<Rightarrow> Inl e
           | Inr out \<Rightarrow>
               Inr (''Key: '' @ show_int key @ '', Value: '' @ show_int val @ endl @ out)))"

definition main_map2 ::
    "nat \<Rightarrow> nat \<Rightarrow> heap \<Rightarrow> (int \<times> int) store \<Rightarrow>
     (error + string) \<times> map_int_int \<times> heap \<times> (int \<times> int) store" where
  "main_map2 sizeof_pair sizeof_node h s =
     (case map2_fill 0 (map_default 10 sizeof_pair sizeof_node) h s of
        (Inl e, m, h', s') \<Rightarrow> (Inl e, m, h', s')
      | (Inr u, m, h', s') \<Rightarrow>
          (case map_print_loop (nodes m) s' of
             Inl e \<Rightarrow> (Inl e, m, h', s')
           | Inr out \<Rightarrow> (Inr (''map2:'' @ endl @ out), m, h', s')))"

section \<open>Properties of the allocator\<close>

subsection \<open>The expansion loop and the two paths of allocate\<close>

text \<open>The recursive equations are unfolded by hand, never by the simplifier on its own.\<close>

declare expand_loop.simps [simp del] factorial.simps [simp del] show_nat.simps [simp del]
  container2_fill.simps [simp del] map2_fill.simps [simp del]

lemma expand_loop_ok:
  "(BlockSize a - i) * sizeof_T a \<le> room h \<Longrightarrow>
   expand_loop i a h =
     (Inr (),
      a\<lparr>free_blocks := free_blocks a @
          [Suc (length (sizes h)) ..< Suc (length (sizes h)) + (BlockSize a - i)]\<rparr>,
      h\<lparr>sizes := sizes h @ replicate (BlockSize a - i) (sizeof_T a),
        room := room h - (BlockSize a - i) * sizeof_T a\<rparr>)"
proof (induction i a h rule: expand_loop.induct)
  case (1 i a h)
  show ?case
  proof (cases "i < BlockSize a")
    case False
    then show ?thesis
      by (subst expand_loop.simps) simp
  next
    case True
    then obtain k where k: "BlockSize a - i = Suc k" "BlockSize a - Suc i = k"
      by (metis Suc_diff_Suc)
    have fits: "sizeof_T a \<le> room h" and rest: "k * sizeof_T a \<le> room h - sizeof_T a"
      using "1.prems" k by auto
    let ?p = "Suc (length (sizes h))"
    let ?h' = "h\<lparr>sizes := sizes h @ [sizeof_T a], room := room h - sizeof_T a\<rparr>"
    let ?a' = "a\<lparr>free_blocks := free_blocks a @ [?p]\<rparr>"
    have new: "operator_new (sizeof_T a) h = (Inr ?p, ?h')"
      using fits by (simp add: operator_new_def)
    have ih: "expand_loop (Suc i) ?a' ?h' =
        (Inr (),
         ?a'\<lparr>free_blocks := free_blocks ?a' @
            [Suc (length (sizes ?h')) ..< Suc (length (sizes ?h')) + (BlockSize ?a' - Suc i)]\<rparr>,
         ?h'\<lparr>sizes := sizes ?h' @ replicate (BlockSize ?a' - Suc i) (sizeof_T ?a'),
            room := room ?h' - (BlockSize ?a' - Suc i) * sizeof_T ?a'\<rparr>)"
      using "1.IH"[OF True new[symmetric] refl] rest k by simp
    have ups: "[?p ..< ?p + Suc k] = ?p # [Suc ?p ..< Suc ?p + k]"
      by (simp add: upt_rec)
    show ?thesis
      apply (subst expand_loop.simps)
      using True new ih k ups
      by (simp add: replicate_append_same)
  qed
qed

lemma expand_ok:
  "BlockSize a * sizeof_T a \<le> room h \<Longrightarrow>
   expand a h =
     (Inr (),
      a\<lparr>free_blocks := free_blocks a @
          [Suc (length (sizes h)) ..< Suc (length (sizes h)) + BlockSize a]\<rparr>,
      h\<lparr>sizes := sizes h @ replicate (BlockSize a) (sizeof_T a),
        room := room h - BlockSize a * sizeof_T a\<rparr>)"
  using expand_loop_ok [of a 0 h] by (simp add: expand_def)

lemma allocate_pop:
  "free_blocks a \<noteq> [] \<Longrightarrow> n \<le> BlockSize a \<Longrightarrow>
   allocate a h n =
     (Inr (last (free_blocks a)), a\<lparr>free_blocks := butlast (free_blocks a)\<rparr>, h)"
  by (simp add: allocate_def)

lemma allocate_refill:
  assumes "free_blocks a = []" "n \<le> BlockSize a" "0 < BlockSize a"
    and "BlockSize a * sizeof_T a \<le> room h"
  shows "allocate a h n =
     (Inr (length (sizes h) + BlockSize a),
      a\<lparr>free_blocks := [Suc (length (sizes h)) ..< length (sizes h) + BlockSize a]\<rparr>,
      h\<lparr>sizes := sizes h @ replicate (BlockSize a) (sizeof_T a),
        room := room h - BlockSize a * sizeof_T a\<rparr>)"
proof -
  obtain b where b: "BlockSize a = Suc b"
    using assms(3) by (cases "BlockSize a") auto
  have "\<not> BlockSize a < n"
    using assms(2) by simp
  then show ?thesis
    using assms(1) expand_ok [OF assms(4)] b
    by (simp add: allocate_def)
qed

lemma allocate_each_pops:
  "length ns \<le> length (free_blocks a) \<Longrightarrow> \<forall>m\<in>set ns. m \<le> BlockSize a \<Longrightarrow>
   allocate_each a h ns =
     (map Inr (take (length ns) (rev (free_blocks a))),
      a\<lparr>free_blocks := take (length (free_blocks a) - length ns) (free_blocks a)\<rparr>, h)"
proof (induction ns arbitrary: a)
  case Nil
  then show ?case by simp
next
  case (Cons n ns)
  then have ne: "free_blocks a \<noteq> []" and le: "n \<le> BlockSize a"
    by auto
  let ?a' = "a\<lparr>free_blocks := butlast (free_blocks a)\<rparr>"
  have step: "allocate a h n = (Inr (last (free_blocks a)), ?a', h)"
    using ne le by (rule allocate_pop)
  have "length ns \<le> length (free_blocks ?a')" "\<forall>m\<in>set ns. m \<le> BlockSize ?a'"
    using Cons.prems by auto
  from Cons.IH [OF this]
  have rest: "allocate_each ?a' h ns =
     (map Inr (take (length ns) (rev (butlast (free_blocks a)))),
      a\<lparr>free_blocks := take (length (free_blocks a) - Suc (length ns)) (butlast (free_blocks a))\<rparr>, h)"
    by simp
  obtain xs x where fb: "free_blocks a = xs @ [x]"
    using ne by (cases "free_blocks a" rule: rev_cases) auto
  have "Inr (last (free_blocks a)) # map Inr (take (length ns) (rev (butlast (free_blocks a)))) =
        (map Inr (take (length (n # ns)) (rev (free_blocks a))) :: (error + addr) list)"
    by (simp add: fb)
  moreover have "take (length (free_blocks a) - Suc (length ns)) (butlast (free_blocks a)) =
            take (length (free_blocks a) - length (n # ns)) (free_blocks a)"
    by (simp add: fb)
  ultimately show ?case
    using step rest by simp
qed

lemma expand_loop_bound:
  "expand_loop i a h = (r, a', h') \<Longrightarrow>
   length (sizes h') \<le> length (sizes h) + (BlockSize a - i) \<and>
   (r = Inr () \<longrightarrow> (BlockSize a - i) * sizeof_T a \<le> room h) \<and>
   (r = Inr () \<or> r = Inl bad_alloc)"
proof (induction i a h arbitrary: r a' h' rule: expand_loop.induct)
  case (1 i a h)
  show ?case
  proof (cases "i < BlockSize a")
    case False
    then show ?thesis
      using "1.prems" by (subst (asm) expand_loop.simps) auto
  next
    case True
    show ?thesis
    proof (cases "sizeof_T a \<le> room h")
      case False
      then show ?thesis
        using "1.prems" True
        by (subst (asm) expand_loop.simps) (auto simp: operator_new_def)
    next
      case fits: True
      let ?p = "Suc (length (sizes h))"
      let ?h1 = "h\<lparr>sizes := sizes h @ [sizeof_T a], room := room h - sizeof_T a\<rparr>"
      let ?a1 = "a\<lparr>free_blocks := free_blocks a @ [?p]\<rparr>"
      have new: "operator_new (sizeof_T a) h = (Inr ?p, ?h1)"
        using fits by (simp add: operator_new_def)
      have rec: "expand_loop (Suc i) ?a1 ?h1 = (r, a', h')"
        using "1.prems" True new by (subst (asm) expand_loop.simps) simp
      from "1.IH" [OF True new [symmetric] refl rec]
      have ih: "length (sizes h') \<le> Suc (length (sizes h)) + (BlockSize a - Suc i)"
        and ok: "r = Inr () \<longrightarrow> (BlockSize a - Suc i) * sizeof_T a \<le> room h - sizeof_T a"
        and kind: "r = Inr () \<or> r = Inl bad_alloc"
        by simp_all
      have "(BlockSize a - i) * sizeof_T a = sizeof_T a + (BlockSize a - Suc i) * sizeof_T a"
      proof -
        obtain k where "BlockSize a - i = Suc k" "BlockSize a - Suc i = k"
          using True by (metis Suc_diff_Suc)
        then show ?thesis by simp
      qed
      then show ?thesis
        using ih ok kind fits True by auto
    qed
  qed
qed

lemma expand_Inr_room:
  "expand a h = (Inr u, a', h') \<Longrightarrow> BlockSize a * sizeof_T a \<le> room h"
  using expand_loop_bound [of 0 a h "Inr u" a' h'] by (simp add: expand_def)

lemma expand_bound:
  "length (sizes (snd (snd (expand a h)))) \<le> length (sizes h) + BlockSize a"
  using expand_loop_bound [of 0 a h "fst (expand a h)" "fst (snd (expand a h))" "snd (snd (expand a h))"]
  by (simp add: expand_def)

lemma cycle_steady:
  "free_blocks a \<noteq> [] \<Longrightarrow> 1 \<le> BlockSize a \<Longrightarrow> cycle a h = (Inr (), a, h)"
  by (simp add: cycle_def allocate_pop deallocate_def)

lemma cycles_steady:
  "free_blocks a \<noteq> [] \<Longrightarrow> 1 \<le> BlockSize a \<Longrightarrow> cycles k a h = (Inr (), a, h)"
  by (induction k) (simp_all add: cycle_steady)

lemma cycle_first:
  assumes "free_blocks a = []" "1 \<le> BlockSize a" "BlockSize a * sizeof_T a \<le> room h"
  shows "cycle a h =
     (Inr (),
      a\<lparr>free_blocks := [Suc (length (sizes h)) ..< Suc (length (sizes h)) + BlockSize a]\<rparr>,
      h\<lparr>sizes := sizes h @ replicate (BlockSize a) (sizeof_T a),
        room := room h - BlockSize a * sizeof_T a\<rparr>)"
proof -
  obtain b where b: "BlockSize a = Suc b"
    using assms(2) by (cases "BlockSize a") auto
  show ?thesis
    using assms allocate_refill [of a 1 h] b
    by (simp add: cycle_def deallocate_def)
qed

lemma allocate_empty_fail:
  assumes "free_blocks a = []" "n \<le> BlockSize a" "\<not> BlockSize a * sizeof_T a \<le> room h"
  shows "allocate a h n = (Inl bad_alloc, snd (expand a h))"
proof (cases "expand a h")
  case (fields r a' h')
  have kind: "r = Inr () \<or> r = Inl bad_alloc"
    using expand_loop_bound [of 0 a h r a' h'] fields by (simp add: expand_def)
  have "r \<noteq> Inr ()"
    using expand_Inr_room [of a h "()" a' h'] assms(3) fields by auto
  with kind have "r = Inl bad_alloc"
    by simp
  then show ?thesis
    using assms fields by (simp add: allocate_def)
qed

lemma cycles_bound:
  assumes "free_blocks a = []" "1 \<le> BlockSize a"
  shows "length (sizes (snd (snd (cycles k a h)))) \<le> length (sizes h) + BlockSize a"
proof (cases k)
  case 0
  then show ?thesis by simp
next
  case (Suc j)
  show ?thesis
  proof (cases "BlockSize a * sizeof_T a \<le> room h")
    case True
    then show ?thesis
      using assms Suc by (simp add: cycle_first cycles_steady)
  next
    case False
    from allocate_empty_fail [OF assms(1) _ False, of 1] assms(2)
    have "allocate a h 1 = (Inl bad_alloc, snd (expand a h))"
      by auto
    then have "cycles k a h = (Inl bad_alloc, snd (expand a h))"
      using Suc by (simp add: cycle_def split: prod.splits)
    then show ?thesis
      using expand_bound [of a h] by simp
  qed
qed

subsection \<open>Batch growth\<close>

text \<open>
  Claim C1.  Take a pool allocation (\<open>n \<le> BlockSize\<close>) that finds the free list empty.  It
  throws \<^verbatim>\<open>bad_alloc\<close> exactly when the system cannot supply a batch.  Otherwise it performs
  exactly one \<^verbatim>\<open>expand\<close>: the heap afterwards is the heap after \<open>expand a h\<close>, it holds
  exactly \<open>BlockSize\<close> more blocks, each of \<open>sizeof_T\<close> bytes, and these blocks are the new
  free list followed by the block handed out.  The next \<open>BlockSize - 1\<close> pool allocations,
  whatever their counts, all succeed and leave the heap as it is, so none of them
  expands, and they empty the free list.  With a non-empty free list, a pool allocation
  on any heap (also one with no room left) returns the last entry and does not touch the
  heap: \<^verbatim>\<open>expand\<close> is not invoked.
\<close>

theorem batch_growth:
  assumes "n \<le> BlockSize a" and "free_blocks a = []"
  shows "(fst (allocate a h n) = Inl bad_alloc) = (\<not> BlockSize a * sizeof_T a \<le> room h) \<and>
         (BlockSize a * sizeof_T a \<le> room h \<longrightarrow>
           (case allocate a h n of
              (r, a', h') \<Rightarrow>
                h' = snd (snd (expand a h)) \<and>
                sizes h' = sizes h @ replicate (BlockSize a) (sizeof_T a) \<and>
                free_blocks a' @ (case r of Inl e \<Rightarrow> [] | Inr p \<Rightarrow> [p]) =
                  [Suc (length (sizes h)) ..< Suc (length (sizes h)) + BlockSize a] \<and>
                (0 < BlockSize a \<longrightarrow> r = Inr (length (sizes h) + BlockSize a)) \<and>
                (\<forall>ns. length ns = BlockSize a - 1 \<and> (\<forall>m\<in>set ns. m \<le> BlockSize a) \<longrightarrow>
                   (case allocate_each a' h' ns of
                      (rs, a'', h'') \<Rightarrow>
                        h'' = h' \<and> rs = map Inr (rev (free_blocks a')) \<and>
                        free_blocks a'' = [])))) \<and>
         (\<forall>(b::MyAllocator) g m. free_blocks b \<noteq> [] \<and> m \<le> BlockSize b \<longrightarrow>
            fst (allocate b g m) = Inr (last (free_blocks b)) \<and> snd (snd (allocate b g m)) = g)"
proof (intro conjI allI impI)
  fix b :: MyAllocator and g m
  assume "free_blocks b \<noteq> [] \<and> m \<le> BlockSize b"
  then show "fst (allocate b g m) = Inr (last (free_blocks b))"
    and "snd (snd (allocate b g m)) = g"
    by (simp_all add: allocate_pop)
next
  show "(fst (allocate a h n) = Inl bad_alloc) = (\<not> BlockSize a * sizeof_T a \<le> room h)"
  proof (cases "BlockSize a * sizeof_T a \<le> room h")
    case False
    then show ?thesis
      using allocate_empty_fail [OF assms(2,1) False] by simp
  next
    case True
    show ?thesis
    proof (cases "BlockSize a")
      case 0
      then show ?thesis
        using assms True expand_ok [OF True] by (simp add: allocate_def)
    next
      case (Suc b)
      then show ?thesis
        using allocate_refill [OF assms(2,1) _ True] True by simp
    qed
  qed
next
  assume fits: "BlockSize a * sizeof_T a \<le> room h"
  let ?L = "length (sizes h)"
  let ?h' = "h\<lparr>sizes := sizes h @ replicate (BlockSize a) (sizeof_T a),
               room := room h - BlockSize a * sizeof_T a\<rparr>"
  show "case allocate a h n of
          (r, a', h') \<Rightarrow>
            h' = snd (snd (expand a h)) \<and>
            sizes h' = sizes h @ replicate (BlockSize a) (sizeof_T a) \<and>
            free_blocks a' @ (case r of Inl e \<Rightarrow> [] | Inr p \<Rightarrow> [p]) =
              [Suc ?L ..< Suc ?L + BlockSize a] \<and>
            (0 < BlockSize a \<longrightarrow> r = Inr (?L + BlockSize a)) \<and>
            (\<forall>ns. length ns = BlockSize a - 1 \<and> (\<forall>m\<in>set ns. m \<le> BlockSize a) \<longrightarrow>
               (case allocate_each a' h' ns of
                  (rs, a'', h'') \<Rightarrow>
                    h'' = h' \<and> rs = map Inr (rev (free_blocks a')) \<and> free_blocks a'' = []))"
  proof (cases "BlockSize a")
    case 0
    then show ?thesis
      using assms expand_ok [OF fits] by (simp add: allocate_def)
  next
    case (Suc b)
    let ?a' = "a\<lparr>free_blocks := [Suc ?L ..< ?L + BlockSize a]\<rparr>"
    have al: "allocate a h n = (Inr (?L + BlockSize a), ?a', ?h')"
      using assms fits Suc by (intro allocate_refill) simp_all
    have each: "allocate_each ?a' ?h' ns =
        (map Inr (rev (free_blocks ?a')), ?a'\<lparr>free_blocks := []\<rparr>, ?h')"
      if "length ns = BlockSize a - 1" "\<forall>m\<in>set ns. m \<le> BlockSize a" for ns
      using allocate_each_pops [of ns ?a' ?h'] that Suc by simp
    show ?thesis
      using al each expand_ok [OF fits] Suc by (simp add: upt_Suc_append)
  qed
qed

text \<open>The hypotheses hold for a fresh allocator with \<open>BlockSize = 3\<close> and 12 bytes of room.\<close>

theorem batch_growth_witness:
  "(1::nat) \<le> BlockSize \<lparr>BlockSize = 3, sizeof_T = 4, free_blocks = []\<rparr> \<and>
   free_blocks \<lparr>BlockSize = 3, sizeof_T = 4, free_blocks = []\<rparr> = [] \<and>
   BlockSize \<lparr>BlockSize = 3, sizeof_T = 4, free_blocks = []\<rparr>
     * sizeof_T \<lparr>BlockSize = 3, sizeof_T = 4, free_blocks = []\<rparr>
     \<le> room \<lparr>sizes = [], released = [], room = 12\<rparr> \<and>
   fst (allocate \<lparr>BlockSize = 3, sizeof_T = 4, free_blocks = []\<rparr>
          \<lparr>sizes = [], released = [], room = 12\<rparr> 1) = Inr 3 \<and>
   sizes (snd (snd (allocate \<lparr>BlockSize = 3, sizeof_T = 4, free_blocks = []\<rparr>
          \<lparr>sizes = [], released = [], room = 12\<rparr> 1))) = [4, 4, 4]"
  using batch_growth [where n = 1 and a = "\<lparr>BlockSize = 3, sizeof_T = 4, free_blocks = []\<rparr>"
      and h = "\<lparr>sizes = [], released = [], room = 12\<rparr>"]
  by (simp add: split_beta numeral_3_eq_3 expand_ok)


subsection \<open>Stack discipline\<close>

lemma allocate_returns_last:
  assumes "n \<le> BlockSize a" and res: "allocate a h n = (Inr q, a', h')"
  shows "free_blocks a' @ [q] =
     (if free_blocks a = [] then free_blocks (fst (snd (expand a h))) else free_blocks a)"
proof (cases "free_blocks a = []")
  case False
  then show ?thesis
    using res allocate_pop [OF False assms(1), of h] by auto
next
  case True
  obtain r1 a1 h1 where ex: "expand a h = (r1, a1, h1)"
    by (metis prod_cases3)
  have "\<not> BlockSize a < n"
    using assms(1) by simp
  then have "free_blocks a1 \<noteq> [] \<and> q = last (free_blocks a1) \<and>
      a' = a1\<lparr>free_blocks := butlast (free_blocks a1)\<rparr>"
    using res True ex by (auto simp: allocate_def split: sum.splits if_splits)
  then show ?thesis
    using True ex by simp
qed

text \<open>
  Claim C2.  The claim is about the pool path, which \<^verbatim>\<open>deallocate(p, 1)\<close> and
  \<^verbatim>\<open>allocate(1)\<close> take when the count 1 does not exceed \<open>BlockSize\<close>.  Then, for every
  allocator state, heap and pointer, \<^verbatim>\<open>deallocate(p, 1)\<close> appends \<open>p\<close> to the free list and
  leaves the heap alone, and the next \<^verbatim>\<open>allocate(1)\<close> returns exactly \<open>p\<close> and restores the
  allocator to the state before the release.  Every pool allocation that returns, with
  any count, removes and returns the last entry of the free list: the list it leaves
  behind, followed by the returned block, is the free list it found, or, when it found
  none, the free list \<^verbatim>\<open>expand\<close> built.  One that finds a free list with an entry does
  return, and makes no system call.
\<close>

theorem lifo_reuse:
  assumes "1 \<le> BlockSize a"
  shows "(case deallocate a h p 1 of
            (r, a', h') \<Rightarrow>
              r = Inr () \<and> free_blocks a' = free_blocks a @ [p] \<and> h' = h \<and>
              allocate a' h' 1 = (Inr p, a, h)) \<and>
         (\<forall>n q a' h'. n \<le> BlockSize a \<and> allocate a h n = (Inr q, a', h') \<longrightarrow>
            free_blocks a' @ [q] =
              (if free_blocks a = [] then free_blocks (fst (snd (expand a h)))
               else free_blocks a)) \<and>
         (\<forall>n. n \<le> BlockSize a \<and> free_blocks a \<noteq> [] \<longrightarrow>
            allocate a h n =
              (Inr (last (free_blocks a)), a\<lparr>free_blocks := butlast (free_blocks a)\<rparr>, h))"
proof (intro conjI allI impI)
  fix n
  assume "n \<le> BlockSize a \<and> free_blocks a \<noteq> []"
  then show "allocate a h n =
      (Inr (last (free_blocks a)), a\<lparr>free_blocks := butlast (free_blocks a)\<rparr>, h)"
    by (simp add: allocate_pop)
next
  show "case deallocate a h p 1 of
          (r, a', h') \<Rightarrow>
            r = Inr () \<and> free_blocks a' = free_blocks a @ [p] \<and> h' = h \<and>
            allocate a' h' 1 = (Inr p, a, h)"
    using assms by (simp add: deallocate_def allocate_pop)
next
  fix n q a' h'
  assume "n \<le> BlockSize a \<and> allocate a h n = (Inr q, a', h')"
  then show "free_blocks a' @ [q] =
      (if free_blocks a = [] then free_blocks (fst (snd (expand a h))) else free_blocks a)"
    using allocate_returns_last [of n a h q a' h'] by simp
qed

theorem lifo_reuse_witness:
  "(1::nat) \<le> BlockSize \<lparr>BlockSize = 10, sizeof_T = 4, free_blocks = [5, 7]\<rparr> \<and>
   allocate (fst (snd (deallocate \<lparr>BlockSize = 10, sizeof_T = 4, free_blocks = [5, 7]\<rparr>
                        \<lparr>sizes = [], released = [], room = 0\<rparr> 9 1)))
            (snd (snd (deallocate \<lparr>BlockSize = 10, sizeof_T = 4, free_blocks = [5, 7]\<rparr>
                        \<lparr>sizes = [], released = [], room = 0\<rparr> 9 1))) 1 =
     (Inr 9, \<lparr>BlockSize = 10, sizeof_T = 4, free_blocks = [5, 7]\<rparr>,
      \<lparr>sizes = [], released = [], room = 0\<rparr>)"
  using lifo_reuse [where a = "\<lparr>BlockSize = 10, sizeof_T = 4, free_blocks = [5, 7]\<rparr>"
      and h = "\<lparr>sizes = [], released = [], room = 0\<rparr>" and p = 9,
      THEN conjunct1]
  by (simp add: split_beta deallocate_def)

subsection \<open>Bypass isolation\<close>

text \<open>
  Claim C3.  For \<open>n > BlockSize\<close>, \<^verbatim>\<open>allocate(n)\<close> is \<^verbatim>\<open>::operator new(n * sizeof(T))\<close> and
  \<^verbatim>\<open>deallocate(p, n)\<close> is \<^verbatim>\<open>::operator delete(p)\<close>: result and heap are those of the system
  call, and the allocator, with its free list, is unchanged, whether the call succeeds
  or not.
\<close>

theorem bypass_isolation:
  assumes "BlockSize a < n"
  shows "allocate a h n =
           (fst (operator_new ((n * sizeof_T a) mod 2 ^ 64) h), a,
            snd (operator_new ((n * sizeof_T a) mod 2 ^ 64) h)) \<and>
         free_blocks (fst (snd (allocate a h n))) = free_blocks a \<and>
         deallocate a h p n =
           (fst (operator_delete p h), a, snd (operator_delete p h)) \<and>
         free_blocks (fst (snd (deallocate a h p n))) = free_blocks a"
  using assms by (simp add: allocate_def deallocate_def split_beta)

theorem bypass_isolation_witness:
  "BlockSize \<lparr>BlockSize = 10, sizeof_T = 4, free_blocks = [2, 1]\<rparr> < (11::nat) \<and>
   allocate \<lparr>BlockSize = 10, sizeof_T = 4, free_blocks = [2, 1]\<rparr>
        \<lparr>sizes = [4, 4], released = [], room = 100\<rparr> 11 =
     (Inr 3, \<lparr>BlockSize = 10, sizeof_T = 4, free_blocks = [2, 1]\<rparr>,
      \<lparr>sizes = [4, 4, 44], released = [], room = 56\<rparr>) \<and>
   deallocate \<lparr>BlockSize = 10, sizeof_T = 4, free_blocks = [2, 1]\<rparr>
        \<lparr>sizes = [4, 4, 44], released = [], room = 56\<rparr> 3 11 =
     (Inr (), \<lparr>BlockSize = 10, sizeof_T = 4, free_blocks = [2, 1]\<rparr>,
      \<lparr>sizes = [4, 4, 44], released = [3], room = 100\<rparr>)"
  using bypass_isolation [where a = "\<lparr>BlockSize = 10, sizeof_T = 4, free_blocks = [2, 1]\<rparr>"
      and n = 11 and h = "\<lparr>sizes = [4, 4], released = [], room = 100\<rparr>"]
    bypass_isolation [where a = "\<lparr>BlockSize = 10, sizeof_T = 4, free_blocks = [2, 1]\<rparr>"
      and n = 11 and h = "\<lparr>sizes = [4, 4, 44], released = [], room = 56\<rparr>" and p = 3]
  by (simp add: operator_new_def operator_delete_def live_def)

subsection \<open>Pool reuse\<close>

text \<open>
  Claim C4, for \<open>BlockSize \<ge> 1\<close>.  Starting from an empty free list, \<open>k\<close> rounds of
  \<^verbatim>\<open>p = allocate(1); deallocate(p, 1)\<close> cause at most \<open>BlockSize\<close> system allocations, for
  every \<open>k\<close> and every heap; when the system can supply one batch and \<open>k > 0\<close>, all rounds
  succeed and the number is exactly \<open>BlockSize\<close>.
\<close>

theorem pool_reuse:
  assumes "1 \<le> BlockSize a" and "free_blocks a = []"
  shows "length (sizes (snd (snd (cycles k a h)))) \<le> length (sizes h) + BlockSize a \<and>
         (0 < k \<and> BlockSize a * sizeof_T a \<le> room h \<longrightarrow>
            fst (cycles k a h) = Inr () \<and>
            length (sizes (snd (snd (cycles k a h)))) = length (sizes h) + BlockSize a)"
proof (intro conjI impI)
  show "length (sizes (snd (snd (cycles k a h)))) \<le> length (sizes h) + BlockSize a"
    using assms by (simp add: cycles_bound)
next
  assume run: "0 < k \<and> BlockSize a * sizeof_T a \<le> room h"
  then obtain j where k: "k = Suc j"
    by (cases k) auto
  have "cycles k a h =
     (Inr (),
      a\<lparr>free_blocks := [Suc (length (sizes h)) ..< Suc (length (sizes h)) + BlockSize a]\<rparr>,
      h\<lparr>sizes := sizes h @ replicate (BlockSize a) (sizeof_T a),
        room := room h - BlockSize a * sizeof_T a\<rparr>)"
    using assms run k by (simp add: cycle_first cycles_steady)
  then show "fst (cycles k a h) = Inr ()"
    and "length (sizes (snd (snd (cycles k a h)))) = length (sizes h) + BlockSize a"
    by simp_all
qed

theorem pool_reuse_witness:
  "(1::nat) \<le> BlockSize \<lparr>BlockSize = 10, sizeof_T = 4, free_blocks = []\<rparr> \<and>
   free_blocks \<lparr>BlockSize = 10, sizeof_T = 4, free_blocks = []\<rparr> = [] \<and>
   (0::nat) < 1000 \<and>
   BlockSize \<lparr>BlockSize = 10, sizeof_T = 4, free_blocks = []\<rparr>
     * sizeof_T \<lparr>BlockSize = 10, sizeof_T = 4, free_blocks = []\<rparr>
     \<le> room \<lparr>sizes = [], released = [], room = 64\<rparr> \<and>
   fst (cycles 1000 \<lparr>BlockSize = 10, sizeof_T = 4, free_blocks = []\<rparr>
          \<lparr>sizes = [], released = [], room = 64\<rparr>) = Inr () \<and>
   length (sizes (snd (snd (cycles 1000 \<lparr>BlockSize = 10, sizeof_T = 4, free_blocks = []\<rparr>
          \<lparr>sizes = [], released = [], room = 64\<rparr>)))) = 10"
  using pool_reuse [where a = "\<lparr>BlockSize = 10, sizeof_T = 4, free_blocks = []\<rparr>"
      and k = 1000 and h = "\<lparr>sizes = [], released = [], room = 64\<rparr>"]
  by simp

text \<open>
  With \<open>BlockSize = 0\<close> every round goes to the system: one round is one system
  allocation, which is more than \<open>BlockSize\<close>.
\<close>

theorem pool_reuse_counterexample:
  "\<not> length (sizes (snd (snd (cycles 1 \<lparr>BlockSize = 0, sizeof_T = 4, free_blocks = []\<rparr>
          \<lparr>sizes = [], released = [], room = 4\<rparr>))))
     \<le> length (sizes \<lparr>sizes = [], released = [], room = 4\<rparr>)
         + BlockSize \<lparr>BlockSize = 0, sizeof_T = 4, free_blocks = []\<rparr>"
  by (simp add: cycle_def allocate_def deallocate_def operator_new_def operator_delete_def live_def)

subsection \<open>Comparison of allocators\<close>

text \<open>
  Claim C9.  Two allocators with the same batch size compare equal with \<^verbatim>\<open>operator==\<close> and
  not unequal with \<^verbatim>\<open>operator!=\<close>, whatever their element sizes and free lists.
\<close>

theorem allocators_always_equal:
  assumes "BlockSize a = BlockSize b"
  shows "operator_eq a b = True \<and> operator_ne a b = False"
  by (simp add: operator_eq_def operator_ne_def)

theorem allocators_always_equal_witness:
  "BlockSize \<lparr>BlockSize = 10, sizeof_T = 4, free_blocks = [3, 1]\<rparr> =
   BlockSize \<lparr>BlockSize = 10, sizeof_T = 40, free_blocks = []\<rparr> \<and>
   operator_eq \<lparr>BlockSize = 10, sizeof_T = 4, free_blocks = [3, 1]\<rparr>
     \<lparr>BlockSize = 10, sizeof_T = 40, free_blocks = []\<rparr> = True \<and>
   operator_ne \<lparr>BlockSize = 10, sizeof_T = 4, free_blocks = [3, 1]\<rparr>
     \<lparr>BlockSize = 10, sizeof_T = 40, free_blocks = []\<rparr> = False"
  using allocators_always_equal [where a = "\<lparr>BlockSize = 10, sizeof_T = 4, free_blocks = [3, 1]\<rparr>"
      and b = "\<lparr>BlockSize = 10, sizeof_T = 40, free_blocks = []\<rparr>"]
  by simp


subsection \<open>The count on the pool path\<close>

lemma allocate_count_irrelevant:
  "n \<le> BlockSize a \<Longrightarrow> m \<le> BlockSize a \<Longrightarrow> allocate a h n = allocate a h m"
  by (simp add: allocate_def)

lemma allocate_keeps_single_element_blocks:
  assumes "0 < BlockSize a" "n \<le> BlockSize a" "single_element_blocks a h"
    and res: "allocate a h n = (Inr p, a', h')"
  shows "0 < p \<and> p \<le> length (sizes h') \<and> sizes h' ! (p - 1) = sizeof_T a \<and>
         single_element_blocks a' h'"
proof (cases "free_blocks a = []")
  case False
  then have "allocate a h n =
      (Inr (last (free_blocks a)), a\<lparr>free_blocks := butlast (free_blocks a)\<rparr>, h)"
    using assms(2) by (rule allocate_pop)
  with res have p: "p = last (free_blocks a)"
    and a': "a' = a\<lparr>free_blocks := butlast (free_blocks a)\<rparr>" and h': "h' = h"
    by simp_all
  have "p \<in> set (free_blocks a)"
    using False p by simp
  moreover have "set (free_blocks a') \<subseteq> set (free_blocks a)"
    using a' by (auto dest: in_set_butlastD)
  ultimately show ?thesis
    using assms(3) a' h' unfolding single_element_blocks_def by auto
next
  case True
  have fits: "BlockSize a * sizeof_T a \<le> room h"
  proof (rule ccontr)
    assume "\<not> ?thesis"
    from allocate_empty_fail [OF True assms(2) this] res show False
      by simp
  qed
  let ?L = "length (sizes h)"
  have "allocate a h n =
     (Inr (?L + BlockSize a),
      a\<lparr>free_blocks := [Suc ?L ..< ?L + BlockSize a]\<rparr>,
      h\<lparr>sizes := sizes h @ replicate (BlockSize a) (sizeof_T a),
        room := room h - BlockSize a * sizeof_T a\<rparr>)"
    using True assms(2,1) fits by (rule allocate_refill)
  with res have p: "p = ?L + BlockSize a"
    and a': "a' = a\<lparr>free_blocks := [Suc ?L ..< ?L + BlockSize a]\<rparr>"
    and h': "h' = h\<lparr>sizes := sizes h @ replicate (BlockSize a) (sizeof_T a),
        room := room h - BlockSize a * sizeof_T a\<rparr>"
    by auto
  have nth: "(sizes h @ replicate (BlockSize a) (sizeof_T a)) ! (q - 1) = sizeof_T a"
    if "?L < q" "q \<le> ?L + BlockSize a" for q
    using that by (auto simp: nth_append)
  show ?thesis
    using assms(1) nth unfolding single_element_blocks_def p a' h' by auto
qed

text \<open>
  With \<open>BlockSize \<ge> 1\<close> every count \<open>n \<le> BlockSize\<close>, also \<open>0\<close> and \<open>2, \<dots>, BlockSize\<close>,
  gives the same result as the count 1: with a non-empty free list the last entry is
  removed and returned; with an empty one, and room for a batch, the last of
  \<open>BlockSize\<close> new blocks of \<open>sizeof_T\<close> bytes is returned and the other
  \<open>BlockSize - 1\<close> stay in the list; with an empty one and no room for a batch the call
  throws \<^verbatim>\<open>bad_alloc\<close>.  When the free list holds single-element blocks, the block
  returned has \<open>sizeof_T\<close> bytes, not \<open>n * sizeof_T\<close>, and the list still holds
  single-element blocks.
\<close>

lemma pool_path_ignores_count:
  assumes "0 < BlockSize a" and "n \<le> BlockSize a"
  shows "allocate a h n = allocate a h 1 \<and>
         (free_blocks a \<noteq> [] \<longrightarrow>
            allocate a h n =
              (Inr (last (free_blocks a)), a\<lparr>free_blocks := butlast (free_blocks a)\<rparr>, h)) \<and>
         (free_blocks a = [] \<and> BlockSize a * sizeof_T a \<le> room h \<longrightarrow>
            allocate a h n =
              (Inr (length (sizes h) + BlockSize a),
               a\<lparr>free_blocks := [Suc (length (sizes h)) ..< length (sizes h) + BlockSize a]\<rparr>,
               h\<lparr>sizes := sizes h @ replicate (BlockSize a) (sizeof_T a),
                 room := room h - BlockSize a * sizeof_T a\<rparr>)) \<and>
         (free_blocks a = [] \<and> \<not> BlockSize a * sizeof_T a \<le> room h \<longrightarrow>
            fst (allocate a h n) = Inl bad_alloc) \<and>
         (\<forall>p a' h'. single_element_blocks a h \<and> allocate a h n = (Inr p, a', h') \<longrightarrow>
            0 < p \<and> p \<le> length (sizes h') \<and> sizes h' ! (p - 1) = sizeof_T a \<and>
            single_element_blocks a' h')"
proof (intro conjI impI allI)
  assume "free_blocks a = [] \<and> \<not> BlockSize a * sizeof_T a \<le> room h"
  then show "fst (allocate a h n) = Inl bad_alloc"
    using allocate_empty_fail [of a n h] assms(2) by simp
next
  show "allocate a h n = allocate a h 1"
    using assms by (intro allocate_count_irrelevant) simp_all
next
  assume "free_blocks a \<noteq> []"
  then show "allocate a h n =
      (Inr (last (free_blocks a)), a\<lparr>free_blocks := butlast (free_blocks a)\<rparr>, h)"
    using assms(2) by (rule allocate_pop)
next
  assume "free_blocks a = [] \<and> BlockSize a * sizeof_T a \<le> room h"
  then show "allocate a h n =
      (Inr (length (sizes h) + BlockSize a),
       a\<lparr>free_blocks := [Suc (length (sizes h)) ..< length (sizes h) + BlockSize a]\<rparr>,
       h\<lparr>sizes := sizes h @ replicate (BlockSize a) (sizeof_T a),
         room := room h - BlockSize a * sizeof_T a\<rparr>)"
    using assms by (intro allocate_refill) simp_all
next
  fix p a' h'
  assume "single_element_blocks a h \<and> allocate a h n = (Inr p, a', h')"
  then have *: "0 < p \<and> p \<le> length (sizes h') \<and> sizes h' ! (p - 1) = sizeof_T a \<and>
         single_element_blocks a' h'"
    using allocate_keeps_single_element_blocks [OF assms, of h p a' h'] by simp
  from * show "0 < p" by simp
  from * show "p \<le> length (sizes h')" by simp
  from * show "sizes h' ! (p - 1) = sizeof_T a" by simp
  from * show "single_element_blocks a' h'" by simp
qed

lemma pool_path_ignores_count_instance:
  "(0::nat) < BlockSize \<lparr>BlockSize = 3, sizeof_T = 4, free_blocks = []\<rparr> \<and>
   (2::nat) \<le> BlockSize \<lparr>BlockSize = 3, sizeof_T = 4, free_blocks = []\<rparr> \<and>
   allocate \<lparr>BlockSize = 3, sizeof_T = 4, free_blocks = []\<rparr>
        \<lparr>sizes = [], released = [], room = 12\<rparr> 2 =
     (Inr 3, \<lparr>BlockSize = 3, sizeof_T = 4, free_blocks = [1, 2]\<rparr>,
      \<lparr>sizes = [4, 4, 4], released = [], room = 0\<rparr>)"
  using pool_path_ignores_count [where a = "\<lparr>BlockSize = 3, sizeof_T = 4, free_blocks = []\<rparr>"
      and n = 2 and h = "\<lparr>sizes = [], released = [], room = 12\<rparr>"]
  by (auto simp: numeral_2_eq_2 numeral_3_eq_3)

text \<open>
  Claim C10.  The claim speaks of every count \<open>n \<le> BlockSize\<close>, the count 0 included, and
  does not hold for \<^verbatim>\<open>MyAllocator<T, 0>\<close>: there the count 0 takes the pool path,
  \<^verbatim>\<open>allocate\<close> calls \<^verbatim>\<open>expand\<close> to refill the empty list, the loop of \<^verbatim>\<open>expand\<close> runs zero
  times, and \<^verbatim>\<open>free_blocks.back()\<close> is called on an empty vector: no block is removed or
  returned, the behaviour is undefined.  The refill before the pop is the guard meant
  to rule this out; it misses the batch size 0.
\<close>

theorem allocate_zero_count_zero_batch:
  "allocate \<lparr>BlockSize = 0, sizeof_T = 4, free_blocks = []\<rparr>
     \<lparr>sizes = [], released = [], room = 100\<rparr> 0 =
   (Inl undefined_behaviour, \<lparr>BlockSize = 0, sizeof_T = 4, free_blocks = []\<rparr>,
    \<lparr>sizes = [], released = [], room = 100\<rparr>)"
  by (simp add: allocate_def expand_ok)

section \<open>Properties of the container\<close>

subsection \<open>Ownership is preserved by push_back\<close>

lemma expand_loop_shape:
  "expand_loop i a h = (r, a', h') \<Longrightarrow>
   \<exists>k. k \<le> BlockSize a - i \<and>
       a' = a\<lparr>free_blocks := free_blocks a @
              [Suc (length (sizes h)) ..< Suc (length (sizes h)) + k]\<rparr> \<and>
       h' = h\<lparr>sizes := sizes h @ replicate k (sizeof_T a), room := room h - k * sizeof_T a\<rparr>"
proof (induction i a h arbitrary: r a' h' rule: expand_loop.induct)
  case (1 i a h)
  show ?case
  proof (cases "i < BlockSize a \<and> sizeof_T a \<le> room h")
    case False
    have "a' = a \<and> h' = h"
      using "1.prems" False
      by (subst (asm) expand_loop.simps) (auto simp: operator_new_def split: if_splits)
    then show ?thesis
      by (intro exI [of _ 0]) simp
  next
    case True
    let ?p = "Suc (length (sizes h))"
    let ?h1 = "h\<lparr>sizes := sizes h @ [sizeof_T a], room := room h - sizeof_T a\<rparr>"
    let ?a1 = "a\<lparr>free_blocks := free_blocks a @ [?p]\<rparr>"
    have new: "operator_new (sizeof_T a) h = (Inr ?p, ?h1)"
      using True by (simp add: operator_new_def)
    have rec: "expand_loop (Suc i) ?a1 ?h1 = (r, a', h')"
      using "1.prems" True new by (subst (asm) expand_loop.simps) simp
    from "1.IH" [OF conjunct1 [OF True] new [symmetric] refl rec]
    obtain k where k: "k \<le> BlockSize a - Suc i"
      and a': "a' = ?a1\<lparr>free_blocks := free_blocks ?a1 @
              [Suc (length (sizes ?h1)) ..< Suc (length (sizes ?h1)) + k]\<rparr>"
      and h': "h' = ?h1\<lparr>sizes := sizes ?h1 @ replicate k (sizeof_T ?a1),
              room := room ?h1 - k * sizeof_T ?a1\<rparr>"
      by auto
    have ups: "[?p ..< ?p + Suc k] = ?p # [Suc ?p ..< Suc ?p + k]"
      by (simp add: upt_rec)
    show ?thesis
    proof (intro exI [of _ "Suc k"] conjI)
      show "Suc k \<le> BlockSize a - i"
        using k True by arith
      show "a' = a\<lparr>free_blocks := free_blocks a @ [?p ..< ?p + Suc k]\<rparr>"
        unfolding a' ups by simp
      show "h' = h\<lparr>sizes := sizes h @ replicate (Suc k) (sizeof_T a),
                  room := room h - Suc k * sizeof_T a\<rparr>"
        unfolding h' by (simp add: replicate_append_same)
    qed
  qed
qed

lemma live_grow:
  "live h q \<Longrightarrow> live (h\<lparr>sizes := sizes h @ xs, room := m\<rparr>) q"
  by (simp add: live_def)

lemma heap_ok_grow:
  "heap_ok h \<Longrightarrow> heap_ok (h\<lparr>sizes := sizes h @ xs, room := m\<rparr>)"
  by (auto simp: heap_ok_def)

lemma live_fresh:
  "heap_ok h \<Longrightarrow> length (sizes h) < q \<Longrightarrow> q \<le> length (sizes h) + length xs \<Longrightarrow>
   live (h\<lparr>sizes := sizes h @ xs, room := m\<rparr>) q"
  by (auto simp: live_def heap_ok_def)

lemma live_bound: "live h q \<Longrightarrow> q \<le> length (sizes h)"
  by (simp add: live_def)

text \<open>The effect of one allocation on a set of owned pointers \<open>E\<close>.\<close>

lemma allocate_owned:
  assumes ok: "heap_ok h"
    and dist: "distinct (E @ free_blocks a)"
    and lv: "\<forall>p\<in>set (E @ free_blocks a). live h p"
    and res: "allocate a h n = (r, a', h')"
  shows "heap_ok h' \<and> (\<forall>q. live h q \<longrightarrow> live h' q) \<and>
         distinct (E @ free_blocks a' @ (case r of Inl e \<Rightarrow> [] | Inr p \<Rightarrow> [p])) \<and>
         (\<forall>p\<in>set (free_blocks a' @ (case r of Inl e \<Rightarrow> [] | Inr p \<Rightarrow> [p])). live h' p) \<and>
         BlockSize a' = BlockSize a \<and> sizeof_T a' = sizeof_T a"
proof -
  let ?L = "length (sizes h)"
  have old: "q \<le> ?L" if "q \<in> set (E @ free_blocks a)" for q
    using lv that live_bound by blast
  show ?thesis
  proof (cases "BlockSize a < n")
    case True
    let ?sz = "(n * sizeof_T a) mod 2 ^ 64"
    show ?thesis
    proof (cases "?sz \<le> room h")
      case False
      then have "r = Inl bad_alloc" "a' = a" "h' = h"
        using res True by (simp_all add: allocate_def operator_new_def)
      then show ?thesis
        using ok dist lv by simp
    next
      case fits: True
      then have r: "r = Inr (Suc ?L)" and a': "a' = a"
        and h': "h' = h\<lparr>sizes := sizes h @ [?sz], room := room h - ?sz\<rparr>"
        using res True by (auto simp: allocate_def operator_new_def)
      have "live h' (Suc ?L)"
        unfolding h' using ok by (intro live_fresh) simp_all
      moreover have "Suc ?L \<notin> set (E @ free_blocks a)"
      proof
        assume "Suc ?L \<in> set (E @ free_blocks a)"
        from old [OF this] show False by simp
      qed
      moreover have "heap_ok h'" "\<And>q. live h q \<Longrightarrow> live h' q"
        unfolding h' using ok by (simp_all add: live_grow heap_ok_grow)
      ultimately show ?thesis
        unfolding r a' using dist lv by simp
    qed
  next
    case pool: False
    obtain r1 a1 h1 where step:
      "(if free_blocks a = [] then expand a h else (Inr (), a, h)) = (r1, a1, h1)"
      by (metis prod_cases3)
    have shape: "\<exists>k. a1 = a\<lparr>free_blocks := free_blocks a @ [Suc ?L ..< Suc ?L + k]\<rparr> \<and>
        h1 = h\<lparr>sizes := sizes h @ replicate k (sizeof_T a), room := room h - k * sizeof_T a\<rparr>"
    proof (cases "free_blocks a = []")
      case True
      then have "expand_loop 0 a h = (r1, a1, h1)"
        using step by (simp add: expand_def)
      from expand_loop_shape [OF this] show ?thesis
        by blast
    next
      case False
      then have "a1 = a" "h1 = h"
        using step by simp_all
      then show ?thesis
        by (intro exI [of _ 0]) simp
    qed
    then obtain k where a1k: "a1 = a\<lparr>free_blocks := free_blocks a @ [Suc ?L ..< Suc ?L + k]\<rparr>"
      and h1: "h1 = h\<lparr>sizes := sizes h @ replicate k (sizeof_T a), room := room h - k * sizeof_T a\<rparr>"
      by blast
    define N where "N = [Suc ?L ..< Suc ?L + k]"
    have a1: "a1 = a\<lparr>free_blocks := free_blocks a @ N\<rparr>"
      using a1k by (simp only: N_def)
    have N: "distinct N" "\<And>q. q \<in> set N \<Longrightarrow> ?L < q \<and> q \<le> ?L + k"
      unfolding N_def by auto
    have ok1: "heap_ok h1"
      unfolding h1 using ok by (rule heap_ok_grow)
    have mono: "live h1 q" if "live h q" for q
      unfolding h1 using that by (rule live_grow)
    have fresh: "live h1 q" if "q \<in> set N" for q
      unfolding h1 using ok N(2) [OF that] by (intro live_fresh) simp_all
    have "set (E @ free_blocks a) \<inter> set N = {}"
    proof (rule ccontr)
      assume "\<not> ?thesis"
      then obtain q where "q \<in> set (E @ free_blocks a)" "q \<in> set N"
        by blast
      with old [of q] N(2) [of q] show False by simp
    qed
    then have dist1: "distinct (E @ free_blocks a1)"
      using dist N(1) unfolding a1 by auto
    have lv1: "\<forall>p\<in>set (free_blocks a1). live h1 p"
      using lv mono fresh unfolding a1 by auto
    have par: "BlockSize a1 = BlockSize a" "sizeof_T a1 = sizeof_T a"
      unfolding a1 by simp_all
    have res': "(r, a', h') =
      (case r1 of
         Inl e \<Rightarrow> (Inl e, a1, h1)
       | Inr u \<Rightarrow>
          (if free_blocks a1 = [] then (Inl undefined_behaviour, a1, h1)
           else (Inr (last (free_blocks a1)), a1\<lparr>free_blocks := butlast (free_blocks a1)\<rparr>, h1)))"
      using res pool unfolding allocate_def step by (auto split: sum.splits if_splits)
    show ?thesis
    proof (cases "\<exists>u. r1 = Inr u \<and> free_blocks a1 \<noteq> []")
      case False
      then have "a' = a1" "h' = h1" "\<exists>e. r = Inl e"
        using res' by (auto split: sum.splits if_splits)
      then show ?thesis
        using ok1 mono dist1 lv1 par by auto
    next
      case True
      then have r: "r = Inr (last (free_blocks a1))"
        and a': "a' = a1\<lparr>free_blocks := butlast (free_blocks a1)\<rparr>" and h': "h' = h1"
        using res' by auto
      have relist: "free_blocks a' @ [last (free_blocks a1)] = free_blocks a1"
        unfolding a' using True by simp
      have "BlockSize a' = BlockSize a" "sizeof_T a' = sizeof_T a"
        unfolding a' using par by simp_all
      moreover have "distinct (E @ free_blocks a' @ [last (free_blocks a1)])"
        unfolding relist by (rule dist1)
      moreover have "\<forall>p\<in>set (free_blocks a' @ [last (free_blocks a1)]). live h' p"
        unfolding relist h' by (rule lv1)
      ultimately show ?thesis
        unfolding r using ok1 mono h' by simp
    qed
  qed
qed


lemma push_back_owns:
  assumes inv: "owns c h s" and res: "push_back c h s v = (r, c', h', s')"
  shows "owns c' h' s'"
proof -
  obtain ra a1 h1 where al: "allocate (alloc_m c) h 1 = (ra, a1, h1)"
    by (metis prod_cases3)
  have ok: "heap_ok h" and dist: "distinct (elements_m c @ free_blocks (alloc_m c))"
    and lv: "\<forall>p\<in>set (elements_m c @ free_blocks (alloc_m c)). live h p"
    and obj: "\<forall>p\<in>set (elements_m c). s p \<noteq> None"
    using inv by (simp_all add: owns_def)
  from allocate_owned [OF ok dist lv al]
  have ok1: "heap_ok h1" and mono: "\<And>q. live h q \<Longrightarrow> live h1 q"
    and dist1: "distinct (elements_m c @ free_blocks a1 @ (case ra of Inl e \<Rightarrow> [] | Inr p \<Rightarrow> [p]))"
    and lv1: "\<forall>p\<in>set (free_blocks a1 @ (case ra of Inl e \<Rightarrow> [] | Inr p \<Rightarrow> [p])). live h1 p"
    by simp_all
  have lvE: "\<forall>p\<in>set (elements_m c). live h1 p"
    using lv mono by simp
  show ?thesis
  proof (cases ra)
    case (Inl e)
    then have "c' = c\<lparr>alloc_m := a1\<rparr>" "h' = h1" "s' = s"
      using res al by (simp_all add: push_back_def)
    then show ?thesis
      using ok1 dist1 lv1 lvE obj Inl by (auto simp: owns_def)
  next
    case (Inr p)
    then have c': "c' = c\<lparr>alloc_m := a1, elements_m := elements_m c @ [p], size_m := size_m c + 1\<rparr>"
      and h': "h' = h1" and s': "s' = s(p \<mapsto> v)"
      using res al by (simp_all add: push_back_def construct_def)
    show ?thesis
      unfolding owns_def c' h' s' using ok1 dist1 lv1 lvE obj Inr by auto
  qed
qed

lemma push_back_count:
  assumes "push_back c h s v = (r, c', h', s')"
  shows "length (elements_m c') = length (elements_m c) + (if r = Inr () then 1 else 0) \<and>
         size_m c' = size_m c + (if r = Inr () then 1 else 0)"
  using assms by (auto simp: push_back_def split: prod.splits sum.splits)


lemma push_backs_count:
  "push_backs c h s vs = (rs, c', h', s') \<Longrightarrow>
   length (elements_m c') = length (elements_m c) + length (filter (\<lambda>r. r = Inr ()) rs) \<and>
   size_m c' = size_m c + length (filter (\<lambda>r. r = Inr ()) rs)"
proof (induction vs arbitrary: c h s rs)
  case Nil
  then show ?case by simp
next
  case (Cons v vs)
  obtain r c1 h1 s1 where one: "push_back c h s v = (r, c1, h1, s1)"
    by (metis prod_cases4)
  obtain rs1 where rest: "push_backs c1 h1 s1 vs = (rs1, c', h', s')" and rs: "rs = r # rs1"
    using Cons.prems one by (auto split: prod.splits)
  from push_back_count [OF one] Cons.IH [OF rest] show ?case
    unfolding rs by auto
qed




lemma owns_init:
  "heap_ok h \<Longrightarrow> distinct (free_blocks alloc) \<Longrightarrow> \<forall>p\<in>set (free_blocks alloc). live h p \<Longrightarrow>
   owns (MyContainer_init alloc) h s"
  by (simp add: owns_def MyContainer_init_def)

lemma push_back_new_element:
  assumes inv: "owns c h s" and res: "push_back c h s v = (Inr (), c', h', s')"
  shows "\<exists>p. elements_m c' = elements_m c @ [p] \<and> p \<notin> set (elements_m c) \<and> s' = s(p \<mapsto> v)"
proof -
  obtain ra a1 h1 where al: "allocate (alloc_m c) h 1 = (ra, a1, h1)"
    by (metis prod_cases3)
  then obtain p where p: "ra = Inr p"
    using res by (cases ra) (simp_all add: push_back_def)
  have el: "elements_m c' = elements_m c @ [p]" and s': "s' = s(p \<mapsto> v)"
    using res al p by (auto simp: push_back_def construct_def)
  have "distinct (elements_m c')"
    using push_back_owns [OF inv res] by (simp add: owns_def)
  then have "p \<notin> set (elements_m c)"
    unfolding el by simp
  with el s' show ?thesis
    by blast
qed

lemma push_backs_values:
  "owns c h s \<Longrightarrow> push_backs c h s vs = (rs, c', h', s') \<Longrightarrow> \<forall>r\<in>set rs. r = Inr () \<Longrightarrow>
   \<exists>ps. elements_m c' = elements_m c @ ps \<and> map s' ps = map Some vs \<and>
        (\<forall>q\<in>set (elements_m c). s' q = s q)"
proof (induction vs arbitrary: c h s rs)
  case Nil
  then show ?case by simp
next
  case (Cons v vs)
  obtain r c1 h1 s1 where one: "push_back c h s v = (r, c1, h1, s1)"
    by (metis prod_cases4)
  obtain rs1 where rest: "push_backs c1 h1 s1 vs = (rs1, c', h', s')" and rs: "rs = r # rs1"
    using Cons.prems(2) one by (auto split: prod.splits)
  have r: "r = Inr ()" and all: "\<forall>r\<in>set rs1. r = Inr ()"
    using Cons.prems(3) rs by simp_all
  from push_back_new_element [OF Cons.prems(1) one [unfolded r]]
  obtain p where el: "elements_m c1 = elements_m c @ [p]" and new: "p \<notin> set (elements_m c)"
    and s1: "s1 = s(p \<mapsto> v)"
    by blast
  have "owns c1 h1 s1"
    using push_back_owns [OF Cons.prems(1) one] .
  from Cons.IH [OF this rest all]
  obtain ps where el': "elements_m c' = elements_m c1 @ ps" and vals: "map s' ps = map Some vs"
    and keep: "\<forall>q\<in>set (elements_m c1). s' q = s1 q"
    by blast
  have "s' p = Some v"
    using keep el s1 by simp
  moreover have "\<forall>q\<in>set (elements_m c). s' q = s q"
    using keep el s1 new by auto
  ultimately show ?case
    using el el' vals by (intro exI [of _ "p # ps"]) simp
qed

lemma print_loop_values:
  "map s ps = map Some vs \<Longrightarrow>
   print_loop sh ps s = Inr (concat (map (\<lambda>v. sh v @ '' '') vs))"
proof (induction ps arbitrary: vs)
  case Nil
  then show ?case by simp
next
  case (Cons p ps)
  then obtain v ws where vs: "vs = v # ws" and p: "s p = Some v" and rest: "map s ps = map Some ws"
    by (cases vs) auto
  from Cons.IH [OF rest] show ?case
    by (simp add: vs p)
qed

subsection \<open>Two concrete runs\<close>


lemma short_of_memory_run:
  "push_backs (MyContainer_init (MyAllocator_default 2 4))
     \<lparr>sizes = [], released = [], room = 8\<rparr> (\<lambda>q. None) [7 :: int, 8, 9] =
   ([Inr (), Inr (), Inl bad_alloc],
    \<lparr>alloc_m = \<lparr>BlockSize = 2, sizeof_T = 4, free_blocks = []\<rparr>,
     elements_m = [2, 1], size_m = 2\<rparr>,
    \<lparr>sizes = [4, 4], released = [], room = 0\<rparr>,
    [2 \<mapsto> 7, 1 \<mapsto> 8])"
  by (simp add: MyContainer_init_def MyAllocator_default_def push_back_def allocate_def
      expand_def expand_loop.simps operator_new_def construct_def)
    (simp add: eval_nat_numeral)

subsection \<open>Bookkeeping\<close>

text \<open>
  Claim C5.  In every state a container reaches from its constructor (with any allocator,
  on any heap and store) by any sequence of \<^verbatim>\<open>push_back\<close> calls, successful or not, the
  length of the address sequence equals the stored count, which is the number of
  successful appends; \<^verbatim>\<open>size()\<close> returns that count and \<^verbatim>\<open>empty()\<close> is true exactly when it
  is zero.  Both observers are functions of the container alone and return no state.
\<close>

theorem bookkeeping:
  "(case push_backs (MyContainer_init alloc) h0 s0 vs of
      (rs, c, h, s) \<Rightarrow>
        length (elements_m c) = size_m c \<and>
        size_m c = length (filter (\<lambda>r. r = Inr ()) rs) \<and>
        size_MyContainer c = size_m c \<and>
        empty_MyContainer c = (size_m c = 0))"
proof -
  obtain rs c h s where run: "push_backs (MyContainer_init alloc) h0 s0 vs = (rs, c, h, s)"
    by (metis prod_cases4)
  from push_backs_count [OF run]
  have "length (elements_m c) = size_m c \<and> size_m c = length (filter (\<lambda>r. r = Inr ()) rs)"
    by (simp add: MyContainer_init_def)
  then show ?thesis
    unfolding run by (simp add: size_MyContainer_def empty_MyContainer_def)
qed

text \<open>An instance: the run whose third append fails holds two elements.\<close>

theorem bookkeeping_witness:
  "length (elements_m \<lparr>alloc_m = \<lparr>BlockSize = 2, sizeof_T = 4, free_blocks = []\<rparr>,
     elements_m = [2, 1], size_m = 2\<rparr>) = 2 \<and>
   size_MyContainer \<lparr>alloc_m = \<lparr>BlockSize = 2, sizeof_T = 4, free_blocks = []\<rparr>,
     elements_m = [2, 1], size_m = 2\<rparr> = 2 \<and>
   empty_MyContainer \<lparr>alloc_m = \<lparr>BlockSize = 2, sizeof_T = 4, free_blocks = []\<rparr>,
     elements_m = [2, 1], size_m = 2\<rparr> = False"
  using bookkeeping [where alloc = "MyAllocator_default 2 4"
      and ?h0.0 = "\<lparr>sizes = [], released = [], room = 8\<rparr>"
      and ?s0.0 = "\<lambda>q. None" and vs = "[7 :: int, 8, 9]"]
  unfolding short_of_memory_run by simp

subsection \<open>Teardown\<close>



section \<open>The scenarios of main\<close>

subsection \<open>Ten appends to the pool-backed container\<close>

lemma push_back_refill:
  assumes "free_blocks (alloc_m c) = []" "0 < BlockSize (alloc_m c)"
    and "BlockSize (alloc_m c) * sizeof_T (alloc_m c) \<le> room h"
  shows "push_back c h s v =
     (Inr (),
      c\<lparr>alloc_m := (alloc_m c)\<lparr>free_blocks :=
            [Suc (length (sizes h)) ..< length (sizes h) + BlockSize (alloc_m c)]\<rparr>,
        elements_m := elements_m c @ [length (sizes h) + BlockSize (alloc_m c)],
        size_m := size_m c + 1\<rparr>,
      h\<lparr>sizes := sizes h @ replicate (BlockSize (alloc_m c)) (sizeof_T (alloc_m c)),
        room := room h - BlockSize (alloc_m c) * sizeof_T (alloc_m c)\<rparr>,
      s(length (sizes h) + BlockSize (alloc_m c) \<mapsto> v))"
proof -
  have "1 \<le> BlockSize (alloc_m c)"
    using assms(2) by simp
  from allocate_refill [OF assms(1) this assms(2,3)] show ?thesis
    by (simp add: push_back_def construct_def)
qed

lemma push_back_pop:
  assumes "free_blocks (alloc_m c) \<noteq> []" "1 \<le> BlockSize (alloc_m c)"
  shows "push_back c h s v =
     (Inr (),
      c\<lparr>alloc_m := (alloc_m c)\<lparr>free_blocks := butlast (free_blocks (alloc_m c))\<rparr>,
        elements_m := elements_m c @ [last (free_blocks (alloc_m c))],
        size_m := size_m c + 1\<rparr>,
      h, s(last (free_blocks (alloc_m c)) \<mapsto> v))"
  using allocate_pop [OF assms] by (simp add: push_back_def construct_def)

lemma butlast_upt: "butlast [m..<n] = [m..<n - 1]"
  by (cases n) simp_all

lemma container2_filled:
  assumes "10 * sz \<le> room h"
  shows "container2_fill 0 (MyContainer_init (MyAllocator_default 10 sz)) h s =
     (Inr (),
      \<lparr>alloc_m = \<lparr>BlockSize = 10, sizeof_T = sz, free_blocks = []\<rparr>,
       elements_m = map (\<lambda>k. length (sizes h) + k) [10, 9, 8, 7, 6, 5, 4, 3, 2, 1],
       size_m = 10\<rparr>,
      h\<lparr>sizes := sizes h @ replicate 10 sz, room := room h - 10 * sz\<rparr>,
      s(length (sizes h) + 10 \<mapsto> 0, length (sizes h) + 9 \<mapsto> 1,
        length (sizes h) + 8 \<mapsto> 2, length (sizes h) + 7 \<mapsto> 3,
        length (sizes h) + 6 \<mapsto> 4, length (sizes h) + 5 \<mapsto> 5,
        length (sizes h) + 4 \<mapsto> 6, length (sizes h) + 3 \<mapsto> 7,
        length (sizes h) + 2 \<mapsto> 8, length (sizes h) + 1 \<mapsto> 9))"
  using assms
  by (simp add: container2_fill.simps MyContainer_init_def MyAllocator_default_def
      push_back_refill push_back_pop butlast_upt)
    (simp add: add.commute)


lemma container2_printed:
  assumes "10 * sz \<le> room h"
  shows "(case main_container2 sz h s of
            (r, c, h', s') \<Rightarrow>
              r = Inr ''container2: 0 1 2 3 4 5 6 7 8 9 \<newline>'' \<and>
              size_MyContainer c = 10 \<and> empty_MyContainer c = False \<and>
              map s' (elements_m c) = map Some [0, 1, 2, 3, 4, 5, 6, 7, 8, 9] \<and>
              h' = h\<lparr>sizes := sizes h @ replicate 10 sz, room := room h - 10 * sz\<rparr>)"
  unfolding main_container2_def container2_filled [OF assms]
  by (simp add: print_def size_MyContainer_def empty_MyContainer_def show_int_def
      show_nat.simps endl_def)

lemma show_digits:
  "show_int 0 = ''0''" "show_int 1 = ''1''" "show_int 2 = ''2''" "show_int 3 = ''3''"
  "show_int 4 = ''4''" "show_int 5 = ''5''" "show_int 6 = ''6''" "show_int 7 = ''7''"
  "show_int 8 = ''8''" "show_int 9 = ''9''"
  by (simp_all add: show_int_def show_nat.simps)

text \<open>
  Claim C7.  On a heap that can supply one batch of ten \<^verbatim>\<open>int\<close> blocks, the
  \<^verbatim>\<open>container2\<close> part of \<^verbatim>\<open>main\<close> appends 0 to 9 to the empty container without an
  exception; then \<^verbatim>\<open>size()\<close> is 10, the objects behind the recorded addresses are
  0, 1, \<dots>, 9 in insertion order, and the output is \<^verbatim>\<open>container2: 0 1 2 3 4 5 6 7 8 9\<close>
  with a blank after every element and a newline.  On a heap that cannot supply the
  batch the first append throws \<^verbatim>\<open>bad_alloc\<close>.  The same holds for every batch size
  and every allocator with distinct live free blocks: whenever the ten appends to a new
  container all return, \<^verbatim>\<open>size()\<close> is 10 and \<^verbatim>\<open>print\<close> writes 0 to 9 in insertion order.
\<close>

theorem append_scenario:
  "(10 * sizeof_int \<le> room h \<longrightarrow>
      (case main_container2 sizeof_int h s of
         (r, c, h', s') \<Rightarrow>
           r = Inr ''container2: 0 1 2 3 4 5 6 7 8 9 \<newline>'' \<and>
           size_MyContainer c = 10 \<and> empty_MyContainer c = False \<and>
           map s' (elements_m c) = map Some [0, 1, 2, 3, 4, 5, 6, 7, 8, 9])) \<and>
   (\<not> 10 * sizeof_int \<le> room h \<longrightarrow> fst (main_container2 sizeof_int h s) = Inl bad_alloc) \<and>
   (heap_ok h0 \<and> distinct (free_blocks alloc) \<and> (\<forall>p\<in>set (free_blocks alloc). live h0 p) \<and>
    push_backs (MyContainer_init alloc) h0 s0 [0, 1, 2, 3, 4, 5, 6, 7, 8, 9] = (rs, c1, h1, s1) \<and>
    (\<forall>r\<in>set rs. r = Inr ()) \<longrightarrow>
      size_MyContainer c1 = 10 \<and>
      map s1 (elements_m c1) = map Some [0, 1, 2, 3, 4, 5, 6, 7, 8, 9] \<and>
      print show_int c1 s1 = Inr ''0 1 2 3 4 5 6 7 8 9 \<newline>'')"
proof (intro conjI impI)
  assume "10 * sizeof_int \<le> room h"
  from container2_printed [OF this, of s]
  show "case main_container2 sizeof_int h s of
         (r, c, h', s') \<Rightarrow>
           r = Inr ''container2: 0 1 2 3 4 5 6 7 8 9 \<newline>'' \<and>
           size_MyContainer c = 10 \<and> empty_MyContainer c = False \<and>
           map s' (elements_m c) = map Some [0, 1, 2, 3, 4, 5, 6, 7, 8, 9]"
    by (simp add: split_beta)
next
  assume "\<not> 10 * sizeof_int \<le> room h"
  then show "fst (main_container2 sizeof_int h s) = Inl bad_alloc"
    using allocate_empty_fail [of "MyAllocator_default 10 sizeof_int" 1 h]
    by (simp add: main_container2_def container2_fill.simps [of 0] push_back_def
        MyContainer_init_def MyAllocator_default_def split_beta)
next
  let ?vs = "[0, 1, 2, 3, 4, 5, 6, 7, 8, 9] :: int list"
  assume a: "heap_ok h0 \<and> distinct (free_blocks alloc) \<and> (\<forall>p\<in>set (free_blocks alloc). live h0 p) \<and>
    push_backs (MyContainer_init alloc) h0 s0 ?vs = (rs, c1, h1, s1) \<and>
    (\<forall>r\<in>set rs. r = Inr ())"
  then have run: "push_backs (MyContainer_init alloc) h0 s0 ?vs = (rs, c1, h1, s1)"
    and ok: "\<forall>r\<in>set rs. r = Inr ()"
    by simp_all
  have inv: "owns (MyContainer_init alloc) h0 s0"
    using a by (intro owns_init) simp_all
  have "length rs = 10"
    using run by (auto split: prod.splits)
  then have "length (filter (\<lambda>r. r = Inr ()) rs) = 10"
    using ok by (simp add: filter_id_conv)
  then show "size_MyContainer c1 = 10"
    using push_backs_count [OF run] by (simp add: size_MyContainer_def MyContainer_init_def)
  from push_backs_values [OF inv run ok]
  show vals: "map s1 (elements_m c1) = map Some ?vs"
    by (auto simp: MyContainer_init_def)
  from print_loop_values [OF vals, of show_int]
  show "print show_int c1 s1 = Inr ''0 1 2 3 4 5 6 7 8 9 \<newline>''"
    by (simp add: print_def show_digits endl_def)
qed

theorem append_scenario_witness:
  "10 * (4::nat) \<le> room \<lparr>sizes = [], released = [], room = 40\<rparr> \<and>
   fst (main_container2 4 \<lparr>sizes = [], released = [], room = 40\<rparr> (\<lambda>q. None)) =
     Inr ''container2: 0 1 2 3 4 5 6 7 8 9 \<newline>'' \<and>
   size_MyContainer
     (fst (snd (main_container2 4 \<lparr>sizes = [], released = [], room = 40\<rparr> (\<lambda>q. None)))) = 10"
  using append_scenario [where sizeof_int = 4
      and h = "\<lparr>sizes = [], released = [], room = 40\<rparr>" and s = "\<lambda>q. None"]
  by (simp add: split_beta)

subsection \<open>The factorial map\<close>

lemma factorial_values:
  "factorial 0 = Inr 1" "factorial 1 = Inr 1" "factorial 2 = Inr 2" "factorial 3 = Inr 6"
  "factorial 4 = Inr 24" "factorial 5 = Inr 120" "factorial 6 = Inr 720"
  "factorial 7 = Inr 5040" "factorial 8 = Inr 40320" "factorial 9 = Inr 362880"
  by (simp_all add: factorial.simps)

lemma map2_filled:
  assumes "10 * szn \<le> room h"
  shows "map2_fill 0 (map_default 10 szp szn) h s =
     (Inr (),
      \<lparr>node_alloc = \<lparr>BlockSize = 10, sizeof_T = szn, free_blocks = []\<rparr>,
       nodes = [(0, length (sizes h) + 10), (1, length (sizes h) + 9),
                (2, length (sizes h) + 8), (3, length (sizes h) + 7),
                (4, length (sizes h) + 6), (5, length (sizes h) + 5),
                (6, length (sizes h) + 4), (7, length (sizes h) + 3),
                (8, length (sizes h) + 2), (9, length (sizes h) + 1)]\<rparr>,
      h\<lparr>sizes := sizes h @ replicate 10 szn, room := room h - 10 * szn\<rparr>,
      s(length (sizes h) + 10 \<mapsto> (0, 1), length (sizes h) + 9 \<mapsto> (1, 1),
        length (sizes h) + 8 \<mapsto> (2, 2), length (sizes h) + 7 \<mapsto> (3, 6),
        length (sizes h) + 6 \<mapsto> (4, 24), length (sizes h) + 5 \<mapsto> (5, 120),
        length (sizes h) + 4 \<mapsto> (6, 720), length (sizes h) + 3 \<mapsto> (7, 5040),
        length (sizes h) + 2 \<mapsto> (8, 40320), length (sizes h) + 1 \<mapsto> (9, 362880)))"
  using assms
  by (simp add: map2_fill.simps map_default_def MyAllocator_rebind_def MyAllocator_default_def
      factorial_values map_subscript_def allocate_refill allocate_pop butlast_upt
      construct_def assign_mapped_def)
    (simp add: add.commute)

lemma show_factorials:
  "show_int 24 = ''24''" "show_int 120 = ''120''" "show_int 720 = ''720''"
  "show_int 5040 = ''5040''" "show_int 40320 = ''40320''" "show_int 362880 = ''362880''"
  by (simp_all add: show_int_def show_nat.simps)

lemma factorial_is_fact:
  assumes "k \<in> {0..9}"
  shows "factorial k = Inr (fact (nat k))"
proof -
  have "0 \<le> k" "k \<le> 9"
    using assms by simp_all
  then have "k = 0 \<or> k = 1 \<or> k = 2 \<or> k = 3 \<or> k = 4 \<or> k = 5 \<or> k = 6 \<or> k = 7 \<or> k = 8 \<or> k = 9"
    by arith
  then show ?thesis
    by (elim disjE) (simp_all add: factorial_values fact_numeral)
qed

text \<open>
  Claim C8.  On a heap that can supply one batch of ten nodes, the \<^verbatim>\<open>map2\<close> part of
  \<^verbatim>\<open>main\<close> (keys 0 to 9, values \<^verbatim>\<open>factorial(key)\<close>, batch size 10) runs without an
  exception; the heap afterwards is the heap after exactly one \<^verbatim>\<open>expand\<close> of the map's
  allocator, ten node-sized blocks more than before, and the free list is empty again;
  the keys are in ascending order and the output is \<^verbatim>\<open>map2:\<close> followed by the lines
  \<^verbatim>\<open>Key: 0, Value: 1\<close> to \<^verbatim>\<open>Key: 9, Value: 362880\<close>.  On a heap that cannot supply
  the batch the first insertion throws \<^verbatim>\<open>bad_alloc\<close>.  For every \<open>k\<close> from 0 to 9,
  \<^verbatim>\<open>factorial(k)\<close> returns \<open>k!\<close>.
\<close>

theorem factorial_map_scenario:
  "(10 * sizeof_node \<le> room h \<longrightarrow>
      (case main_map2 sizeof_pair sizeof_node h s of
         (r, m, h', s') \<Rightarrow>
           r = Inr (''map2:\<newline>'' @
                    ''Key: 0, Value: 1\<newline>'' @ ''Key: 1, Value: 1\<newline>'' @
                    ''Key: 2, Value: 2\<newline>'' @ ''Key: 3, Value: 6\<newline>'' @
                    ''Key: 4, Value: 24\<newline>'' @ ''Key: 5, Value: 120\<newline>'' @
                    ''Key: 6, Value: 720\<newline>'' @ ''Key: 7, Value: 5040\<newline>'' @
                    ''Key: 8, Value: 40320\<newline>'' @ ''Key: 9, Value: 362880\<newline>'') \<and>
           h' = snd (snd (expand (node_alloc (map_default 10 sizeof_pair sizeof_node)) h)) \<and>
           sizes h' = sizes h @ replicate 10 sizeof_node \<and>
           free_blocks (node_alloc m) = [] \<and>
           map fst (nodes m) = [0, 1, 2, 3, 4, 5, 6, 7, 8, 9])) \<and>
   (\<not> 10 * sizeof_node \<le> room h \<longrightarrow>
      fst (main_map2 sizeof_pair sizeof_node h s) = Inl bad_alloc) \<and>
   (\<forall>k\<in>{0..9}. factorial k = Inr (fact (nat k)))"
proof (intro conjI impI ballI)
  assume "\<not> 10 * sizeof_node \<le> room h"
  then show "fst (main_map2 sizeof_pair sizeof_node h s) = Inl bad_alloc"
    using allocate_empty_fail [of "node_alloc (map_default 10 sizeof_pair sizeof_node)" 1 h]
    by (simp add: main_map2_def map2_fill.simps [of 0] factorial_values map_subscript_def
        map_default_def MyAllocator_rebind_def MyAllocator_default_def split_beta)
next
  fix k :: int
  assume "k \<in> {0..9}"
  then show "factorial k = Inr (fact (nat k))"
    by (rule factorial_is_fact)
next
  assume fits: "10 * sizeof_node \<le> room h"
  have ex: "expand (node_alloc (map_default 10 sizeof_pair sizeof_node)) h =
     (Inr (),
      \<lparr>BlockSize = 10, sizeof_T = sizeof_node,
       free_blocks = [Suc (length (sizes h)) ..< Suc (length (sizes h)) + 10]\<rparr>,
      h\<lparr>sizes := sizes h @ replicate 10 sizeof_node, room := room h - 10 * sizeof_node\<rparr>)"
    using expand_ok [of "node_alloc (map_default 10 sizeof_pair sizeof_node)" h] fits
    by (simp add: map_default_def MyAllocator_rebind_def MyAllocator_default_def)
  show "case main_map2 sizeof_pair sizeof_node h s of
         (r, m, h', s') \<Rightarrow>
           r = Inr (''map2:\<newline>'' @
                    ''Key: 0, Value: 1\<newline>'' @ ''Key: 1, Value: 1\<newline>'' @
                    ''Key: 2, Value: 2\<newline>'' @ ''Key: 3, Value: 6\<newline>'' @
                    ''Key: 4, Value: 24\<newline>'' @ ''Key: 5, Value: 120\<newline>'' @
                    ''Key: 6, Value: 720\<newline>'' @ ''Key: 7, Value: 5040\<newline>'' @
                    ''Key: 8, Value: 40320\<newline>'' @ ''Key: 9, Value: 362880\<newline>'') \<and>
           h' = snd (snd (expand (node_alloc (map_default 10 sizeof_pair sizeof_node)) h)) \<and>
           sizes h' = sizes h @ replicate 10 sizeof_node \<and>
           free_blocks (node_alloc m) = [] \<and>
           map fst (nodes m) = [0, 1, 2, 3, 4, 5, 6, 7, 8, 9]"
    unfolding main_map2_def map2_filled [OF fits] ex
    by (simp add: show_digits show_factorials endl_def)
qed

theorem factorial_map_scenario_witness:
  "10 * (40::nat) \<le> room \<lparr>sizes = [], released = [], room = 400\<rparr> \<and>
   fst (main_map2 8 40 \<lparr>sizes = [], released = [], room = 400\<rparr> (\<lambda>q. None)) =
     Inr (''map2:\<newline>'' @
          ''Key: 0, Value: 1\<newline>'' @ ''Key: 1, Value: 1\<newline>'' @
          ''Key: 2, Value: 2\<newline>'' @ ''Key: 3, Value: 6\<newline>'' @
          ''Key: 4, Value: 24\<newline>'' @ ''Key: 5, Value: 120\<newline>'' @
          ''Key: 6, Value: 720\<newline>'' @ ''Key: 7, Value: 5040\<newline>'' @
          ''Key: 8, Value: 40320\<newline>'' @ ''Key: 9, Value: 362880\<newline>'') \<and>
   free_blocks (node_alloc
     (fst (snd (main_map2 8 40 \<lparr>sizes = [], released = [], room = 400\<rparr> (\<lambda>q. None))))) = [] \<and>
   (9::int) \<in> {0..9} \<and> factorial 9 = Inr 362880"
  using factorial_map_scenario [where sizeof_node = 40 and sizeof_pair = 8
      and h = "\<lparr>sizes = [], released = [], room = 400\<rparr>" and s = "\<lambda>q. None"]
  by (simp add: split_beta fact_numeral)

end
